theory Spec2Isabelle
  imports Main "HOL-Library.Word" "HOL-Library.Sublist"
begin

section \<open>Excise Boring Bits (ebb): the frame-retention decision engine of src/ebb.c\<close>

text \<open>
  Conventions of the embedding.
  \<^item> A C \<^verbatim>\<open>int\<close> is a HOL \<open>int\<close>. Where the program computes with values of its
    configuration and of the stream's header (\<^verbatim>\<open>2 * options.border\<close>, \<^verbatim>\<open>w * 3\<close>,
    \<^verbatim>\<open>options.border * 3\<close> in \<^verbatim>\<open>frames_differ\<close>, \<^verbatim>\<open>options.splash * fps->num\<close> in
    \<^verbatim>\<open>dump_splash\<close>, the conversion of the slack in \<^verbatim>\<open>excise_boring_bits\<close>) the result is
    reduced to 32 bits in two's complement, \<open>wrap_int\<close>, as the instructions of the compiled
    program do. The counters of the loops (\<^verbatim>\<open>frames\<close>, \<^verbatim>\<open>out_frames\<close>, \<^verbatim>\<open>skip\<close>, \<^verbatim>\<open>i\<close>,
    \<^verbatim>\<open>x\<close>, \<^verbatim>\<open>y\<close>) and the products of \<^verbatim>\<open>get_times\<close> are not reduced: what is stated of
    them is stated of the runs in which they stay inside the range of \<^verbatim>\<open>int\<close>.
  \<^item> C division truncates towards zero and traps on a zero divisor: \<open>c_div\<close>.
  \<^item> A \<^verbatim>\<open>const uint8_t *\<close> is a buffer together with a byte offset; reading outside the
    buffer is the error \<open>OutOfBounds\<close>.
  \<^item> A failed \<^verbatim>\<open>assert\<close> is the error \<open>AssertFailed\<close> (the Makefile does not define
    \<^verbatim>\<open>NDEBUG\<close>).
\<close>

subsection \<open>Errors, integers and pointers\<close>

datatype error = OutOfBounds | DivByZero | AssertFailed

definition bindE :: "error + 'a \<Rightarrow> ('a \<Rightarrow> error + 'b) \<Rightarrow> error + 'b" where
  "bindE m f = (case m of Inl e \<Rightarrow> Inl e | Inr v \<Rightarrow> f v)"

text \<open>The value that 32 bits in two's complement keep of an integer.\<close>

definition wrap_int :: "int \<Rightarrow> int" where
  "wrap_int i = (i + 2 ^ 31) mod 2 ^ 32 - 2 ^ 31"

text \<open>The quotient of C's \<^verbatim>\<open>/\<close> on \<^verbatim>\<open>int\<close>, for a divisor that is not zero.\<close>

definition trunc_div :: "int \<Rightarrow> int \<Rightarrow> int" where
  "trunc_div a b = (if (a < 0) = (b < 0) then \<bar>a\<bar> div \<bar>b\<bar> else - (\<bar>a\<bar> div \<bar>b\<bar>))"

definition c_div :: "int \<Rightarrow> int \<Rightarrow> error + int" where
  "c_div a b = (if b = 0 then Inl DivByZero else Inr (trunc_div a b))"

type_synonym u8 = "8 word"

type_synonym ptr = "u8 list \<times> int"

definition ptr_add :: "ptr \<Rightarrow> int \<Rightarrow> ptr" where
  "ptr_add p n = (fst p, snd p + n)"

text \<open>\<^verbatim>\<open>p[i]\<close>, promoted to \<^verbatim>\<open>int\<close>.\<close>

definition load :: "ptr \<Rightarrow> int \<Rightarrow> error + int" where
  "load p i =
     (let j = snd p + i
      in if 0 \<le> j \<and> j < int (length (fst p)) then Inr (uint (fst p ! nat j))
         else Inl OutOfBounds)"

subsection \<open>Constants\<close>

definition SECOND_IN_CS :: int where "SECOND_IN_CS = 100"
definition SLACK_TIME_CS :: int where "SLACK_TIME_CS = 80"
definition SPLASH_TIME_CS :: int where "SPLASH_TIME_CS = 300"
definition PIXEL_TOLERANCE :: int where "PIXEL_TOLERANCE = trunc_div (255 * 3) 10"
definition BORDER :: int where "BORDER = 5"

subsection \<open>Pixel comparator and neighbourhood classifier\<close>

text \<open>\<^verbatim>\<open>pixel_difference\<close>: the degree to which two pixels differ (0 to 255*3).\<close>

definition pixel_difference :: "ptr \<Rightarrow> ptr \<Rightarrow> error + int" where
  "pixel_difference prev cur =
     bindE (load prev 0) (\<lambda>pr. bindE (load prev 1) (\<lambda>pg. bindE (load prev 2) (\<lambda>pb.
     bindE (load cur 0) (\<lambda>cr. bindE (load cur 1) (\<lambda>cg. bindE (load cur 2) (\<lambda>cb.
       Inr (\<bar>pr - cr\<bar> + \<bar>pg - cg\<bar> + \<bar>pb - cb\<bar>)))))))"

text \<open>\<^verbatim>\<open>neighbourhoods_differ\<close>: whether two 2x2 pixel neighbourhoods count as different.\<close>

definition neighbourhoods_differ :: "ptr \<Rightarrow> ptr \<Rightarrow> ptr \<Rightarrow> ptr \<Rightarrow> int \<Rightarrow> error + bool" where
  "neighbourhoods_differ prev_t prev_n curr_t curr_n x =
     bindE (pixel_difference (ptr_add prev_t x) (ptr_add curr_t x)) (\<lambda>tl.
     bindE (pixel_difference (ptr_add prev_t (x + 3)) (ptr_add curr_t (x + 3))) (\<lambda>tr.
     bindE (pixel_difference (ptr_add prev_n x) (ptr_add curr_n x)) (\<lambda>bl.
     bindE (pixel_difference (ptr_add prev_n (x + 3)) (ptr_add curr_n (x + 3))) (\<lambda>br.
       let different = (0::int);
           different = (if tl > PIXEL_TOLERANCE then different + 1 else different);
           different = (if tr > PIXEL_TOLERANCE then different + 1 else different);
           different = (if bl > PIXEL_TOLERANCE then different + 1 else different);
           different = (if br > PIXEL_TOLERANCE then different + 1 else different)
       in if different > 3 then Inr True else Inr False))))"

text \<open>
  The words of the specification, for comparison: a pixel is three 8-bit channels at a
  pointer that can be read, and the difference of two pixels is the sum of the absolute
  differences of their channels.
\<close>

definition readable :: "ptr \<Rightarrow> int \<Rightarrow> bool" where
  "readable p n \<longleftrightarrow> 0 \<le> snd p \<and> snd p + n \<le> int (length (fst p))"

definition channel :: "ptr \<Rightarrow> nat \<Rightarrow> int" where
  "channel p k = uint (fst p ! (nat (snd p) + k))"

definition sum_abs_diff :: "ptr \<Rightarrow> ptr \<Rightarrow> int" where
  "sum_abs_diff p c =
     \<bar>channel p 0 - channel c 0\<bar> + \<bar>channel p 1 - channel c 1\<bar> + \<bar>channel p 2 - channel c 2\<bar>"

subsection \<open>Data of the program\<close>

datatype log_level = LOG_DEBUG | LOG_INFO | LOG_RESULT | LOG_WARNING | LOG_ERROR

text \<open>The value of each enumerator, in the order of the declaration.\<close>

fun log_rank :: "log_level \<Rightarrow> nat" where
  "log_rank LOG_DEBUG = 0"
| "log_rank LOG_INFO = 1"
| "log_rank LOG_RESULT = 2"
| "log_rank LOG_WARNING = 3"
| "log_rank LOG_ERROR = 4"

text \<open>The global \<^verbatim>\<open>options\<close>.\<close>

record options =
  input_path :: string
  output_path :: string
  splash_path :: "string option"
  border :: int
  slack :: int
  splash :: int

text \<open>The globals: \<^verbatim>\<open>level\<close> and \<^verbatim>\<open>options\<close>.\<close>

record globals =
  level :: log_level
  opts :: options

record AVRational =
  num :: int
  den :: int

text \<open>Of an \<^verbatim>\<open>AVFrame\<close> the program reads \<^verbatim>\<open>data[0]\<close> and \<^verbatim>\<open>linesize[0]\<close>.\<close>

record AVFrame =
  data0 :: "u8 list"
  linesize0 :: int

record AVCodecContext =
  width :: int
  height :: int

record AVStream =
  avg_frame_rate :: AVRational

text \<open>What the program prints: one constructor for each \<^verbatim>\<open>LOG\<close> call of the source.\<close>

datatype message =
    MsgAllocFrame
  | MsgAllocRgb
  | MsgSplashFailed
  | MsgSplashFrames int
  | MsgNotVideo
  | MsgDecodeWarning
  | MsgDifferent int
  | MsgSame int
  | MsgSkipFrames int int
  | MsgSkipTimes int int int int int int
  | MsgFrames int int
  | MsgTimes int int int int int int

text \<open>The macro \<^verbatim>\<open>LOG(lev, ...)\<close>: print when \<^verbatim>\<open>lev >= level\<close>.\<close>

definition LOG :: "log_level \<Rightarrow> log_level \<Rightarrow> message \<Rightarrow> message list \<Rightarrow> message list" where
  "LOG lvl lev m printed = (if log_rank lev \<ge> log_rank lvl then printed @ [m] else printed)"

subsection \<open>Frame differencer\<close>

text \<open>
  The result of a scan, and the calls of \<^verbatim>\<open>neighbourhoods_differ\<close> in their order: for
  each call the loop counters \<open>y\<close> and \<open>x\<close> and the byte offset in \<^verbatim>\<open>frame_prev->data[0]\<close>
  of the top left pixel it compares (\<^verbatim>\<open>prev_t + x\<close>).
\<close>

type_synonym scan = "(error + bool) \<times> (int \<times> int \<times> int) list"

text \<open>The inner loop: \<^verbatim>\<open>for (x = options.border * 3; x < w; x += 3)\<close>, from \<open>x\<close> on.\<close>

function scan_row :: "ptr \<Rightarrow> ptr \<Rightarrow> ptr \<Rightarrow> ptr \<Rightarrow> int \<Rightarrow> int \<Rightarrow> int \<Rightarrow> scan" where
  "scan_row prev_t prev_n curr_t curr_n w y x =
     (if x < w then
        (case neighbourhoods_differ prev_t prev_n curr_t curr_n x of
           Inl e \<Rightarrow> (Inl e, [(y, x, snd prev_t + x)])
         | Inr True \<Rightarrow> (Inr True, [(y, x, snd prev_t + x)])
         | Inr False \<Rightarrow>
             (let (r, seen) = scan_row prev_t prev_n curr_t curr_n w y (x + 3)
              in (r, (y, x, snd prev_t + x) # seen)))
      else (Inr False, []))"
  by pat_completeness auto
termination
  by (relation "measure (\<lambda>(prev_t, prev_n, curr_t, curr_n, w, y, x). nat (w - x))") auto

text \<open>The outer loop: \<^verbatim>\<open>for (y = options.border; y < h; y++)\<close>, from \<open>y\<close> on.\<close>

function scan_rows :: "AVFrame \<Rightarrow> AVFrame \<Rightarrow> int \<Rightarrow> ptr \<Rightarrow> ptr \<Rightarrow> int \<Rightarrow> int \<Rightarrow> int \<Rightarrow> scan" where
  "scan_rows frame_prv frame_cur bord prev_t curr_t w h y =
     (if y < h then
        (let prev_n = ptr_add prev_t (linesize0 frame_prv);
             curr_n = ptr_add curr_t (linesize0 frame_cur)
         in case scan_row prev_t prev_n curr_t curr_n w y (wrap_int (bord * 3)) of
              (Inr False, seen) \<Rightarrow>
                (let (r, seen') = scan_rows frame_prv frame_cur bord prev_n curr_n w h (y + 1)
                 in (r, seen @ seen'))
            | (r, seen) \<Rightarrow> (r, seen))
      else (Inr False, []))"
  by pat_completeness auto
termination
  by (relation "measure (\<lambda>(frame_prv, frame_cur, bord, prev_t, curr_t, w, h, y). nat (h - y))") auto

text \<open>\<^verbatim>\<open>frames_differ\<close>: whether two frames count as different.\<close>

definition frames_differ :: "options \<Rightarrow> AVFrame \<Rightarrow> AVFrame \<Rightarrow> int \<Rightarrow> int \<Rightarrow> scan" where
  "frames_differ opt frame_prv frame_cur w h =
     (let w = wrap_int (w - wrap_int (2 * border opt));
          h = wrap_int (h - wrap_int (2 * border opt));
          w = wrap_int (w - 1);
          h = wrap_int (h - 1);
          w = wrap_int (w * 3);
          prev_t = (data0 frame_prv, 0);
          curr_t = (data0 frame_cur, 0)
      in scan_rows frame_prv frame_cur (border opt) prev_t curr_t w h (border opt))"

subsection \<open>Timeline reporter\<close>

text \<open>
  \<^verbatim>\<open>get_times\<close>: two frame numbers and a frame rate to two times. The result is
  \<open>(s1, m1, h1, s2, m2, h2)\<close>, in the order of the out-parameters.
\<close>

definition get_times :: "int \<Rightarrow> int \<Rightarrow> AVRational \<Rightarrow> error + (int \<times> int \<times> int \<times> int \<times> int \<times> int)" where
  "get_times f1 f2 fps =
     (if \<not> f1 \<le> f2 then Inl AssertFailed
      else
        let h1 = 0; h2 = 0; m1 = 0; m2 = 0
        in bindE (c_div (f1 * den fps) (num fps)) (\<lambda>s1.
           bindE (c_div (f2 * den fps) (num fps)) (\<lambda>s2.
             let (h1, h2, s1, s2) =
                   (if trunc_div s1 (60 * 60) > 0 then
                      (let h1 = trunc_div s1 (60 * 60);
                           h2 = trunc_div s2 (60 * 60)
                       in (h1, h2, s1 - h1 * (60 * 60), s2 - h2 * (60 * 60)))
                    else (h1, h2, s1, s2));
                 (m1, m2, s1, s2) =
                   (if trunc_div s1 60 > 0 then
                      (let m1 = trunc_div s1 60;
                           m2 = trunc_div s2 60
                       in (m1, m2, s1 - m1 * 60, s2 - m2 * 60))
                    else (m1, m2, s1, s2))
             in Inr (s1, m1, h1, s2, m2, h2))))"

subsection \<open>The state of \<^verbatim>\<open>excise_boring_bits\<close>\<close>

text \<open>
  The locals of \<^verbatim>\<open>excise_boring_bits\<close> that the decisions use, and what the program has
  done to the world so far: the text printed, the hard links made for splash slots
  (by output index), and the PNG files written (output index and the pixels of
  \<^verbatim>\<open>frame_prev\<close> handed to \<^verbatim>\<open>image_write_png\<close>). \<open>differ_calls\<close> counts the calls of
  \<^verbatim>\<open>frames_differ\<close>.
\<close>

record state =
  frames :: int
  out_frames :: int
  skip :: int
  frame_prev :: AVFrame
  frame_curr :: AVFrame
  printed :: "message list"
  linked :: "int list"
  written :: "(int \<times> u8 list) list"
  differ_calls :: nat

definition say :: "globals \<Rightarrow> log_level \<Rightarrow> message \<Rightarrow> state \<Rightarrow> state" where
  "say g lev m st = st\<lparr>printed := LOG (level g) lev m (printed st)\<rparr>"

text \<open>
  What the collaborators outside the core do in one run: whether each
  \<^verbatim>\<open>avcodec_alloc_frame\<close> succeeds, the two RGB frames as \<^verbatim>\<open>avpicture_fill\<close> sets them up,
  and whether \<^verbatim>\<open>link\<close> succeeds for the splash slot of a given index.
\<close>

record world =
  alloc_frame_ok :: bool
  alloc_curr_ok :: bool
  alloc_prev_ok :: bool
  rgb_curr :: AVFrame
  rgb_prev :: AVFrame
  link_ok :: "int \<Rightarrow> bool"

text \<open>
  What one iteration of \<^verbatim>\<open>while (av_read_frame(fmt_ctx, &pkt) >= 0)\<close> receives: a packet
  of another stream, a packet that fails to decode, a packet that yields no frame, or
  a frame, given by the RGB24 bytes that \<^verbatim>\<open>sws_scale\<close> stores in \<^verbatim>\<open>frame_curr\<close>.
\<close>

datatype packet = OtherStream | DecodeError | NoPicture | Picture "u8 list"

subsection \<open>Splash injector\<close>

text \<open>The loop \<^verbatim>\<open>for (i = 0; i < lim; i++)\<close> of \<^verbatim>\<open>dump_splash\<close>, from \<open>i\<close> on.\<close>

function splash_loop :: "globals \<Rightarrow> world \<Rightarrow> int \<Rightarrow> int \<Rightarrow> state \<Rightarrow> int \<times> state" where
  "splash_loop g wd lim i st =
     (if i < lim then
        (if \<not> link_ok wd i then (i, say g LOG_INFO MsgSplashFailed st)
         else splash_loop g wd lim (i + 1) (st\<lparr>linked := linked st @ [i]\<rparr>))
      else (i, st))"
  by pat_completeness auto
termination
  by (relation "measure (\<lambda>(g, wd, lim, i, st). nat (lim - i))") auto

definition dump_splash :: "globals \<Rightarrow> world \<Rightarrow> AVRational \<Rightarrow> state \<Rightarrow> (error \<times> state) + (int \<times> state)" where
  "dump_splash g wd fps st =
     (case c_div (wrap_int (splash (opts g) * num fps)) (wrap_int (SECOND_IN_CS * den fps)) of
        Inl e \<Rightarrow> Inl (e, st)
      | Inr lim \<Rightarrow>
          (let (i, st) = splash_loop g wd lim 0 st
           in Inr (i, say g LOG_INFO (MsgSplashFrames i) st)))"

subsection \<open>Skip accumulator and output sequencer\<close>

text \<open>
  The end of the body of \<^verbatim>\<open>if (got_frame)\<close>: write \<^verbatim>\<open>frame_prev\<close> under the next output
  index if \<^verbatim>\<open>write_frame\<close>, then count the frame. The result of \<^verbatim>\<open>image_write_png\<close> is
  not looked at by the source.
\<close>

definition finish_frame :: "bool \<Rightarrow> state \<Rightarrow> state" where
  "finish_frame write_frame st =
     (let st = (if write_frame
                then st\<lparr>written := written st @ [(out_frames st, data0 (frame_prev st))],
                        out_frames := out_frames st + 1\<rparr>
                else st)
      in st\<lparr>frames := frames st + 1\<rparr>)"

text \<open>The branch "this frame has something new".\<close>

definition frame_different :: "globals \<Rightarrow> AVStream \<Rightarrow> int \<Rightarrow> state \<Rightarrow> (error \<times> state) + state" where
  "frame_different g vs slack_f st =
     (let st = st\<lparr>frame_prev := frame_curr st, frame_curr := frame_prev st\<rparr>;
          st = say g LOG_DEBUG (MsgDifferent (frames st)) st
      in if skip st > slack_f then
           (let f1 = frames st - (skip st - slack_f);
                f2 = frames st
            in case get_times f1 f2 (avg_frame_rate vs) of
                 Inl e \<Rightarrow> Inl (e, st)
               | Inr (s1, m1, h1, s2, m2, h2) \<Rightarrow>
                   (let st = say g LOG_INFO (MsgSkipFrames f1 f2) st;
                        st = say g LOG_INFO (MsgSkipTimes h1 m1 s1 h2 m2 s2) st
                    in Inr (finish_frame True (st\<lparr>skip := 0\<rparr>))))
         else Inr (finish_frame True (st\<lparr>skip := 0\<rparr>)))"

text \<open>The branch "frames are the same".\<close>

definition frame_same :: "globals \<Rightarrow> int \<Rightarrow> state \<Rightarrow> state" where
  "frame_same g slack_f st =
     (let st = st\<lparr>skip := skip st + 1\<rparr>;
          st = say g LOG_DEBUG (MsgSame (frames st)) st
      in finish_frame (\<not> skip st > slack_f) st)"

text \<open>
  The body of \<^verbatim>\<open>if (got_frame)\<close>: \<^verbatim>\<open>sws_scale\<close> stores the frame in \<^verbatim>\<open>frame_curr\<close>; then
  \<^verbatim>\<open>frames == 0 || frames_differ(frame_prev, frame_curr, ...)\<close> chooses the branch.
\<close>

definition handle_frame ::
  "globals \<Rightarrow> AVCodecContext \<Rightarrow> AVStream \<Rightarrow> int \<Rightarrow> u8 list \<Rightarrow> state \<Rightarrow> (error \<times> state) + state" where
  "handle_frame g dec_ctx vs slack_f rgb st =
     (let st = st\<lparr>frame_curr := (frame_curr st)\<lparr>data0 := rgb\<rparr>\<rparr>
      in if frames st = 0 then frame_different g vs slack_f st
         else
           (let st = st\<lparr>differ_calls := differ_calls st + 1\<rparr>
            in case fst (frames_differ (opts g) (frame_prev st) (frame_curr st)
                           (width dec_ctx) (height dec_ctx)) of
                 Inl e \<Rightarrow> Inl (e, st)
               | Inr True \<Rightarrow> frame_different g vs slack_f st
               | Inr False \<Rightarrow> Inr (frame_same g slack_f st)))"

text \<open>The loop \<^verbatim>\<open>while (av_read_frame(fmt_ctx, &pkt) >= 0)\<close> over the packets of the input.\<close>

fun read_frames ::
  "globals \<Rightarrow> AVCodecContext \<Rightarrow> AVStream \<Rightarrow> int \<Rightarrow> packet list \<Rightarrow> state \<Rightarrow> (error \<times> state) + state" where
  "read_frames g dec_ctx vs slack_f [] st = Inr st"
| "read_frames g dec_ctx vs slack_f (OtherStream # pkts) st =
     read_frames g dec_ctx vs slack_f pkts (say g LOG_DEBUG MsgNotVideo st)"
| "read_frames g dec_ctx vs slack_f (DecodeError # pkts) st =
     Inr (say g LOG_WARNING MsgDecodeWarning st)"
| "read_frames g dec_ctx vs slack_f (NoPicture # pkts) st =
     read_frames g dec_ctx vs slack_f pkts st"
| "read_frames g dec_ctx vs slack_f (Picture rgb # pkts) st =
     (case handle_frame g dec_ctx vs slack_f rgb st of
        Inl e \<Rightarrow> Inl e
      | Inr st \<Rightarrow> read_frames g dec_ctx vs slack_f pkts st)"

text \<open>What follows the loop: the totals, computed by \<^verbatim>\<open>get_times\<close> and printed.\<close>

definition report_totals :: "globals \<Rightarrow> AVStream \<Rightarrow> state \<Rightarrow> (error \<times> state) + state" where
  "report_totals g vs st =
     (case get_times (frames st) (out_frames st) (avg_frame_rate vs) of
        Inl e \<Rightarrow> Inl (e, st)
      | Inr (s1, m1, h1, s2, m2, h2) \<Rightarrow>
          (let st = say g LOG_RESULT (MsgFrames (frames st) (out_frames st)) st;
               st = say g LOG_RESULT (MsgTimes h1 m1 s1 h2 m2 s2) st
           in Inr st))"

text \<open>
  \<^verbatim>\<open>excise_boring_bits\<close>. \<open>Inl\<close> is a run that stops at an error, with the state reached;
  \<open>Inr\<close> is a run that returns \<^verbatim>\<open>res\<close>.
\<close>

definition excise_boring_bits ::
  "globals \<Rightarrow> world \<Rightarrow> AVCodecContext \<Rightarrow> AVStream \<Rightarrow> packet list \<Rightarrow> (error \<times> state) + (bool \<times> state)" where
  "excise_boring_bits g wd dec_ctx vs pkts =
     (let st = \<lparr>frames = 0, out_frames = 0, skip = 0,
                frame_prev = rgb_prev wd, frame_curr = rgb_curr wd,
                printed = [], linked = [], written = [], differ_calls = 0\<rparr>
      in case c_div (wrap_int (slack (opts g) * num (avg_frame_rate vs)))
                    (wrap_int (SECOND_IN_CS * den (avg_frame_rate vs))) of
           Inl e \<Rightarrow> Inl (e, st)
         | Inr slack_f \<Rightarrow>
             if \<not> alloc_frame_ok wd then Inr (False, say g LOG_ERROR MsgAllocFrame st)
             else if \<not> alloc_curr_ok wd then Inr (False, say g LOG_ERROR MsgAllocRgb st)
             else if \<not> alloc_prev_ok wd then Inr (False, say g LOG_ERROR MsgAllocRgb st)
             else
               (case (if splash_path (opts g) \<noteq> None
                      then dump_splash g wd (avg_frame_rate vs) st
                      else Inr (0, st)) of
                  Inl e \<Rightarrow> Inl e
                | Inr (n, st) \<Rightarrow>
                    (case read_frames g dec_ctx vs slack_f pkts (st\<lparr>out_frames := n\<rparr>) of
                       Inl e \<Rightarrow> Inl e
                     | Inr st \<Rightarrow>
                         (case report_totals g vs st of
                            Inl e \<Rightarrow> Inl e
                          | Inr st \<Rightarrow> Inr (True, st)))))"

subsection \<open>Notions used in the statements\<close>

text \<open>
  The call of \<^verbatim>\<open>neighbourhoods_differ\<close> that the loops of \<^verbatim>\<open>frames_differ\<close> make \<open>dy\<close> rows
  after the row at \<open>prev_t\<close> and \<open>curr_t\<close>, and the one they make at the counters \<open>y\<close> and
  \<open>x\<close>: the row pointers start at \<^verbatim>\<open>data[0]\<close> and have advanced \<open>y - border\<close> times.
\<close>

definition block_call :: "AVFrame \<Rightarrow> AVFrame \<Rightarrow> ptr \<Rightarrow> ptr \<Rightarrow> int \<Rightarrow> int \<Rightarrow> error + bool" where
  "block_call frame_prv frame_cur prev_t curr_t dy x =
     neighbourhoods_differ
       (ptr_add prev_t (dy * linesize0 frame_prv)) (ptr_add prev_t ((dy + 1) * linesize0 frame_prv))
       (ptr_add curr_t (dy * linesize0 frame_cur)) (ptr_add curr_t ((dy + 1) * linesize0 frame_cur)) x"

definition compare_at :: "options \<Rightarrow> AVFrame \<Rightarrow> AVFrame \<Rightarrow> int \<Rightarrow> int \<Rightarrow> error + bool" where
  "compare_at opt frame_prv frame_cur y x =
     block_call frame_prv frame_cur (data0 frame_prv, 0) (data0 frame_cur, 0) (y - border opt) x"

text \<open>The messages that report a range of skipped frames.\<close>

fun is_skip_report :: "message \<Rightarrow> bool" where
  "is_skip_report (MsgSkipFrames f1 f2) = True"
| "is_skip_report (MsgSkipTimes h1 m1 s1 h2 m2 s2) = True"
| "is_skip_report m = False"

text \<open>The state that a run, stopped or not, has reached.\<close>

definition reached :: "(error \<times> state) + state \<Rightarrow> state" where
  "reached r = (case r of Inl (e, st) \<Rightarrow> st | Inr st \<Rightarrow> st)"

definition outcome_state :: "(error \<times> state) + (bool \<times> state) \<Rightarrow> state" where
  "outcome_state r = (case r of Inl (e, st) \<Rightarrow> st | Inr (res, st) \<Rightarrow> st)"

text \<open>
  The output sequencer's numbering from \<open>n\<close> on: the files written so far carry the
  indices \<open>n, n + 1, ...\<close> in this order, and \<^verbatim>\<open>out_frames\<close> is the next one.
\<close>

definition sequenced :: "int \<Rightarrow> state \<Rightarrow> bool" where
  "sequenced n st \<longleftrightarrow>
     out_frames st = n + int (length (written st)) \<and>
     map fst (written st) = map (\<lambda>k. n + int k) [0..<length (written st)]"

text \<open>
  What a part of the run does to the files: no splash link is added, the list of written
  files is only extended, and the numbering is kept.
\<close>

definition carries_on :: "int \<Rightarrow> state \<Rightarrow> state \<Rightarrow> bool" where
  "carries_on n st st' \<longleftrightarrow>
     linked st' = linked st \<and> prefix (written st) (written st') \<and>
     (sequenced n st \<longrightarrow> sequenced n st')"

subsection \<open>Concrete inputs\<close>

text \<open>
  A 2x2 block of a previous frame and of a current frame, two rows of six bytes: three
  corners differ by 77 and the fourth by 76.
\<close>

definition blk_prev :: "u8 list" where
  "blk_prev = [0,0,0, 0,0,0, 0,0,0, 0,0,0]"

definition blk_curr :: "u8 list" where
  "blk_curr = [77,0,0, 0,77,0, 0,0,77, 26,25,25]"

text \<open>
  A run on frames of 2x2 pixels (rows of six bytes) with no border, no splash image and
  a slack of 0 cs at 1 frame per second, every message printed.
\<close>

definition frame_black :: "u8 list" where
  "frame_black = [0,0,0, 0,0,0, 0,0,0, 0,0,0]"

definition frame_white :: "u8 list" where
  "frame_white = [255,255,255, 255,255,255, 255,255,255, 255,255,255]"

definition g_demo :: globals where
  "g_demo = \<lparr>level = LOG_DEBUG,
             opts = \<lparr>input_path = ''in.mkv'', output_path = ''out.png'', splash_path = None,
                     border = 0, slack = 0, splash = 300\<rparr>\<rparr>"

definition wd_demo :: world where
  "wd_demo = \<lparr>alloc_frame_ok = True, alloc_curr_ok = True, alloc_prev_ok = True,
              rgb_curr = \<lparr>data0 = frame_black, linesize0 = 6\<rparr>,
              rgb_prev = \<lparr>data0 = frame_black, linesize0 = 6\<rparr>,
              link_ok = (\<lambda>i. True)\<rparr>"

definition dec_demo :: AVCodecContext where
  "dec_demo = \<lparr>width = 2, height = 2\<rparr>"

definition vs_demo :: AVStream where
  "vs_demo = \<lparr>avg_frame_rate = \<lparr>num = 1, den = 1\<rparr>\<rparr>"

text \<open>The state in which \<^verbatim>\<open>excise_boring_bits\<close> enters its loop in that run.\<close>

definition st_demo :: state where
  "st_demo = \<lparr>frames = 0, out_frames = 0, skip = 0,
              frame_prev = rgb_prev wd_demo, frame_curr = rgb_curr wd_demo,
              printed = [], linked = [], written = [], differ_calls = 0\<rparr>"

text \<open>The state after three black frames: the first written, two dropped.\<close>

definition st_still :: state where
  "st_still = \<lparr>frames = 3, out_frames = 1, skip = 2,
               frame_prev = \<lparr>data0 = frame_black, linesize0 = 6\<rparr>,
               frame_curr = \<lparr>data0 = frame_black, linesize0 = 6\<rparr>,
               printed = [MsgDifferent 0, MsgSame 1, MsgSame 2], linked = [],
               written = [(0, frame_black)], differ_calls = 2\<rparr>"

text \<open>Options with a border of one pixel.\<close>

definition opt_wide :: options where
  "opt_wide = \<lparr>input_path = ''in.mkv'', output_path = ''out.png'', splash_path = None,
                border = 1, slack = 80, splash = 300\<rparr>"

text \<open>
  Frames of 5x5 pixels, rows of 15 bytes: one black; one that differs from it in the
  four pixels of rows 2 and 3, columns 2 and 3; one that differs from it in the four
  pixels of rows 0 and 1, columns 1 and 2.
\<close>

definition frame5_plain :: "u8 list" where
  "frame5_plain =
     [0,0,0, 0,0,0, 0,0,0, 0,0,0, 0,0,0,
      0,0,0, 0,0,0, 0,0,0, 0,0,0, 0,0,0,
      0,0,0, 0,0,0, 0,0,0, 0,0,0, 0,0,0,
      0,0,0, 0,0,0, 0,0,0, 0,0,0, 0,0,0,
      0,0,0, 0,0,0, 0,0,0, 0,0,0, 0,0,0]"

definition frame5_inner :: "u8 list" where
  "frame5_inner =
     [0,0,0, 0,0,0, 0,0,0, 0,0,0, 0,0,0,
      0,0,0, 0,0,0, 0,0,0, 0,0,0, 0,0,0,
      0,0,0, 0,0,0, 255,255,255, 255,255,255, 0,0,0,
      0,0,0, 0,0,0, 255,255,255, 255,255,255, 0,0,0,
      0,0,0, 0,0,0, 0,0,0, 0,0,0, 0,0,0]"

definition frame5_top :: "u8 list" where
  "frame5_top =
     [0,0,0, 255,255,255, 255,255,255, 0,0,0, 0,0,0,
      0,0,0, 255,255,255, 255,255,255, 0,0,0, 0,0,0,
      0,0,0, 0,0,0, 0,0,0, 0,0,0, 0,0,0,
      0,0,0, 0,0,0, 0,0,0, 0,0,0, 0,0,0,
      0,0,0, 0,0,0, 0,0,0, 0,0,0, 0,0,0]"

text \<open>The state after a white frame follows the three black ones.\<close>

definition st_resumed :: state where
  "st_resumed = \<lparr>frames = 4, out_frames = 2, skip = 0,
                 frame_prev = \<lparr>data0 = frame_white, linesize0 = 6\<rparr>,
                 frame_curr = \<lparr>data0 = frame_black, linesize0 = 6\<rparr>,
                 printed = [MsgDifferent 0, MsgSame 1, MsgSame 2, MsgDifferent 3,
                            MsgSkipFrames 1 3, MsgSkipTimes 0 0 1 0 0 3],
                 linked = [],
                 written = [(0, frame_black), (1, frame_white)], differ_calls = 3\<rparr>"

text \<open>
  The same run with a splash image of 300 cs, and the state in which it returns after
  three black frames.
\<close>

definition g_splash :: globals where
  "g_splash = \<lparr>level = LOG_DEBUG,
               opts = \<lparr>input_path = ''in.mkv'', output_path = ''out.png'',
                       splash_path = Some ''splash.png'',
                       border = 0, slack = 0, splash = 300\<rparr>\<rparr>"

definition st_splash_end :: state where
  "st_splash_end = \<lparr>frames = 3, out_frames = 4, skip = 2,
                    frame_prev = \<lparr>data0 = frame_black, linesize0 = 6\<rparr>,
                    frame_curr = \<lparr>data0 = frame_black, linesize0 = 6\<rparr>,
                    printed = [MsgSplashFrames 3, MsgDifferent 0, MsgSame 1, MsgSame 2,
                               MsgFrames 3 4, MsgTimes 0 0 3 0 0 4],
                    linked = [0, 1, 2],
                    written = [(3, frame_black)], differ_calls = 2\<rparr>"

text \<open>Packets of a run: one of another stream, then two black frames.\<close>

definition pkts_demo :: "packet list" where
  "pkts_demo = [OtherStream, Picture frame_black, Picture frame_black]"

text \<open>Options with a border of 1200000000 pixels, as \<^verbatim>\<open>--border 1200000000\<close> sets it.\<close>

definition opt_huge :: options where
  "opt_huge = \<lparr>input_path = ''in.mkv'', output_path = ''out.png'', splash_path = None,
                border = 1200000000, slack = 80, splash = 300\<rparr>"

text \<open>
  A splash time of 40000 cs, as \<^verbatim>\<open>--intro 40000\<close> sets it, and a stream of 60000/1001
  frames per second.
\<close>

definition g_long :: globals where
  "g_long = \<lparr>level = LOG_DEBUG,
             opts = \<lparr>input_path = ''in.mkv'', output_path = ''out.png'',
                     splash_path = Some ''splash.png'',
                     border = 0, slack = 0, splash = 40000\<rparr>\<rparr>"

definition vs_fast :: AVStream where
  "vs_fast = \<lparr>avg_frame_rate = \<lparr>num = 60000, den = 1001\<rparr>\<rparr>"

text \<open>
  The way of \<^verbatim>\<open>excise_boring_bits\<close> to its loop: the value of its local \<^verbatim>\<open>slack\<close> and the
  state in which it enters \<^verbatim>\<open>while (av_read_frame(fmt_ctx, &pkt) >= 0)\<close>, when it gets
  there (no zero divisor, the three frames allocated).
\<close>

definition loop_entry :: "globals \<Rightarrow> world \<Rightarrow> AVStream \<Rightarrow> (int \<times> state) option" where
  "loop_entry g wd vs =
     (let st = \<lparr>frames = 0, out_frames = 0, skip = 0,
                frame_prev = rgb_prev wd, frame_curr = rgb_curr wd,
                printed = [], linked = [], written = [], differ_calls = 0\<rparr>
      in case c_div (wrap_int (slack (opts g) * num (avg_frame_rate vs)))
                    (wrap_int (SECOND_IN_CS * den (avg_frame_rate vs))) of
           Inl e \<Rightarrow> None
         | Inr slack_f \<Rightarrow>
             if \<not> alloc_frame_ok wd \<or> \<not> alloc_curr_ok wd \<or> \<not> alloc_prev_ok wd then None
             else
               (case (if splash_path (opts g) \<noteq> None
                      then dump_splash g wd (avg_frame_rate vs) st
                      else Inr (0, st)) of
                  Inl e \<Rightarrow> None
                | Inr (n, st) \<Rightarrow> Some (slack_f, st\<lparr>out_frames := n\<rparr>)))"

text \<open>
  The same run with a splash image of 300 cs: the state in which the loop starts, and the
  state after one black frame.
\<close>

definition st_splash_start :: state where
  "st_splash_start = \<lparr>frames = 0, out_frames = 3, skip = 0,
                      frame_prev = \<lparr>data0 = frame_black, linesize0 = 6\<rparr>,
                      frame_curr = \<lparr>data0 = frame_black, linesize0 = 6\<rparr>,
                      printed = [MsgSplashFrames 3], linked = [0, 1, 2],
                      written = [], differ_calls = 0\<rparr>"

definition st_splash_one :: state where
  "st_splash_one = \<lparr>frames = 1, out_frames = 4, skip = 0,
                    frame_prev = \<lparr>data0 = frame_black, linesize0 = 6\<rparr>,
                    frame_curr = \<lparr>data0 = frame_black, linesize0 = 6\<rparr>,
                    printed = [MsgSplashFrames 3, MsgDifferent 0], linked = [0, 1, 2],
                    written = [(3, frame_black)], differ_calls = 0\<rparr>"

section \<open>Properties\<close>

subsection \<open>Pixel comparator and neighbourhood classifier\<close>

lemma PIXEL_TOLERANCE_value: "PIXEL_TOLERANCE = 76"
  by (simp add: PIXEL_TOLERANCE_def trunc_div_def)

lemma load_readable:
  "readable p n \<Longrightarrow> 0 \<le> i \<Longrightarrow> i < n \<Longrightarrow> load p i = Inr (channel p (nat i))"
  by (simp add: readable_def load_def channel_def Let_def nat_add_distrib)

lemma pixel_difference_readable:
  assumes "readable p 3" and "readable c 3"
  shows "pixel_difference p c = Inr (sum_abs_diff p c)"
proof -
  have "load p 0 = Inr (channel p 0)" "load p 1 = Inr (channel p 1)" "load p 2 = Inr (channel p 2)"
    using load_readable [OF assms(1), of 0] load_readable [OF assms(1), of 1]
      load_readable [OF assms(1), of 2] by simp_all
  moreover have "load c 0 = Inr (channel c 0)" "load c 1 = Inr (channel c 1)" "load c 2 = Inr (channel c 2)"
    using load_readable [OF assms(2), of 0] load_readable [OF assms(2), of 1]
      load_readable [OF assms(2), of 2] by simp_all
  ultimately show ?thesis
    by (simp add: pixel_difference_def bindE_def sum_abs_diff_def)
qed

lemma readable_halves:
  "readable (ptr_add p x) 6 \<Longrightarrow> readable (ptr_add p x) 3 \<and> readable (ptr_add p (x + 3)) 3"
  by (simp add: readable_def ptr_add_def)

text \<open>
  Claim C2. For a 2x2 block whose four pixels can be read in both frames,
  \<^verbatim>\<open>neighbourhoods_differ\<close> returns true if and only if each of the four corner
  differences, the sum of the absolute differences of the three 8-bit channels, is
  strictly greater than the tolerance \<open>(255 * 3) / 10 = 76\<close>; with three or fewer such
  corners it returns false.
\<close>

theorem neighbourhoods_differ_all_four:
  assumes "readable (ptr_add prev_t x) 6" and "readable (ptr_add prev_n x) 6"
    and "readable (ptr_add curr_t x) 6" and "readable (ptr_add curr_n x) 6"
  shows "PIXEL_TOLERANCE = 76 \<and>
         neighbourhoods_differ prev_t prev_n curr_t curr_n x =
           Inr (76 < sum_abs_diff (ptr_add prev_t x) (ptr_add curr_t x) \<and>
                76 < sum_abs_diff (ptr_add prev_t (x + 3)) (ptr_add curr_t (x + 3)) \<and>
                76 < sum_abs_diff (ptr_add prev_n x) (ptr_add curr_n x) \<and>
                76 < sum_abs_diff (ptr_add prev_n (x + 3)) (ptr_add curr_n (x + 3)))"
proof -
  have tl: "pixel_difference (ptr_add prev_t x) (ptr_add curr_t x) =
              Inr (sum_abs_diff (ptr_add prev_t x) (ptr_add curr_t x))"
    using assms(1,3) by (simp add: pixel_difference_readable readable_halves)
  have tr: "pixel_difference (ptr_add prev_t (x + 3)) (ptr_add curr_t (x + 3)) =
              Inr (sum_abs_diff (ptr_add prev_t (x + 3)) (ptr_add curr_t (x + 3)))"
    using assms(1,3) by (simp add: pixel_difference_readable readable_halves)
  have bl: "pixel_difference (ptr_add prev_n x) (ptr_add curr_n x) =
              Inr (sum_abs_diff (ptr_add prev_n x) (ptr_add curr_n x))"
    using assms(2,4) by (simp add: pixel_difference_readable readable_halves)
  have br: "pixel_difference (ptr_add prev_n (x + 3)) (ptr_add curr_n (x + 3)) =
              Inr (sum_abs_diff (ptr_add prev_n (x + 3)) (ptr_add curr_n (x + 3)))"
    using assms(2,4) by (simp add: pixel_difference_readable readable_halves)
  show ?thesis
    by (simp add: neighbourhoods_differ_def tl tr bl br bindE_def PIXEL_TOLERANCE_value Let_def)
qed

theorem neighbourhoods_differ_all_four_witness:
  "readable (ptr_add (blk_prev, 0) 0) 6 \<and> readable (ptr_add (blk_prev, 6) 0) 6 \<and>
   readable (ptr_add (blk_curr, 0) 0) 6 \<and> readable (ptr_add (blk_curr, 6) 0) 6 \<and>
   sum_abs_diff (ptr_add (blk_prev, 6) 3) (ptr_add (blk_curr, 6) 3) = 76 \<and>
   neighbourhoods_differ (blk_prev, 0) (blk_prev, 6) (blk_curr, 0) (blk_curr, 6) 0 = Inr False"
proof -
  have r: "readable (ptr_add (blk_prev, 0) 0) 6" "readable (ptr_add (blk_prev, 6) 0) 6"
    "readable (ptr_add (blk_curr, 0) 0) 6" "readable (ptr_add (blk_curr, 6) 0) 6"
    by (simp_all add: readable_def ptr_add_def blk_prev_def blk_curr_def)
  have s: "sum_abs_diff (ptr_add (blk_prev, 6) 3) (ptr_add (blk_curr, 6) 3) = 76"
    by (simp add: sum_abs_diff_def channel_def ptr_add_def blk_prev_def blk_curr_def)
  show ?thesis
    using r s neighbourhoods_differ_all_four [OF r] by simp
qed

subsection \<open>Timeline reporter\<close>

lemma trunc_div_nonneg: "0 \<le> a \<Longrightarrow> 0 < b \<Longrightarrow> trunc_div a b = a div b"
  by (simp add: trunc_div_def)

text \<open>
  The first of the two times is decomposed as hours, minutes and seconds for every
  frame number that is not negative.
\<close>

lemma get_times_first_time:
  assumes "0 \<le> f1" and "f1 \<le> f2" and "0 \<le> den fps" and "0 < num fps"
  shows "\<exists>s2 m2 h2. get_times f1 f2 fps =
           Inr ((f1 * den fps div num fps) mod 60, (f1 * den fps div num fps) mod 3600 div 60,
                f1 * den fps div num fps div 3600, s2, m2, h2)"
proof -
  define s where "s = f1 * den fps div num fps"
  define t where "t = trunc_div (f2 * den fps) (num fps)"
  have s0: "0 \<le> s"
    using assms by (simp add: s_def pos_imp_zdiv_nonneg_iff)
  have d1: "c_div (f1 * den fps) (num fps) = Inr s"
    using assms by (simp add: c_div_def trunc_div_nonneg s_def)
  have d2: "c_div (f2 * den fps) (num fps) = Inr t"
    using assms by (simp add: c_div_def t_def)
  have h: "trunc_div s 3600 = s div 3600"
    using s0 by (simp add: trunc_div_nonneg)
  have a: "s - s div 3600 * 3600 = s mod 3600"
    by (simp add: minus_div_mult_eq_mod)
  have c: "s mod 3600 mod 60 = s mod 60"
    by (simp add: mod_mod_cancel)
  show ?thesis
  proof (cases "0 < s div 3600")
    case True
    define r where "r = s mod 3600"
    have r0: "0 \<le> r" by (simp add: r_def)
    have m: "trunc_div r 60 = r div 60"
      using r0 by (simp add: trunc_div_nonneg)
    have b: "r - r div 60 * 60 = s mod 60"
      by (simp add: minus_div_mult_eq_mod r_def c)
    have z: "\<not> 0 < r div 60 \<Longrightarrow> r div 60 = 0 \<and> s mod 60 = r"
      using r0 b by (simp add: pos_imp_zdiv_pos_iff div_pos_pos_trivial)
    show ?thesis
      using True assms(2) z
      unfolding s_def [symmetric]
      by (cases "0 < r div 60")
        (simp_all add: get_times_def d1 d2 bindE_def h a r_def [symmetric] m b Let_def)
  next
    case False
    have s36: "s < 3600"
      using False s0 by (simp add: pos_imp_zdiv_pos_iff)
    have hz: "s div 3600 = 0" and sm: "s mod 3600 = s"
      using s0 s36 by simp_all
    have m: "trunc_div s 60 = s div 60"
      using s0 by (simp add: trunc_div_nonneg)
    have b: "s - s div 60 * 60 = s mod 60"
      by (simp add: minus_div_mult_eq_mod)
    have z: "\<not> 0 < s div 60 \<Longrightarrow> s div 60 = 0 \<and> s mod 60 = s"
      using s0 by (simp add: pos_imp_zdiv_pos_iff)
    show ?thesis
      using False assms(2) z
      unfolding s_def [symmetric]
      by (cases "0 < s div 60")
        (simp_all add: get_times_def d1 d2 bindE_def h hz sm m b Let_def)
  qed
qed

text \<open>
  Claim C8, at the input where the code departs from it. \<^verbatim>\<open>get_times\<close> tests only the
  first time (\<^verbatim>\<open>*s1 / (60 * 60) > 0\<close>, \<^verbatim>\<open>*s1 / 60 > 0\<close>) before it splits both: for
  frames 1 and 60 at 1 frame per second the second time stays 0 hours, 0 minutes and
  60 seconds, where the claim asks for 1 minute and 0 seconds.
\<close>

theorem get_times_second_time_not_decomposed:
  "get_times 1 60 \<lparr>num = 1, den = 1\<rparr> = Inr (1, 0, 0, 60, 0, 0)"
  by (simp add: get_times_def c_div_def trunc_div_def bindE_def)

text \<open>
  Claim C10. \<^verbatim>\<open>get_times\<close> asserts \<^verbatim>\<open>f1 <= f2\<close>, and the totals are computed by
  \<^verbatim>\<open>get_times(frames, out_frames, ...)\<close>: in every state in which more frames were read
  than written, that call fails the assertion and the run stops there.
\<close>

theorem report_totals_assertion:
  "out_frames st < frames st \<Longrightarrow>
     get_times (frames st) (out_frames st) (avg_frame_rate vs) = Inl AssertFailed \<and>
     report_totals g vs st = Inl (AssertFailed, st)"
  by (simp add: get_times_def report_totals_def)

theorem report_totals_assertion_witness:
  "read_frames g_demo dec_demo vs_demo 0
     (map Picture [frame_black, frame_black, frame_black]) st_demo = Inr st_still \<and>
   out_frames st_still < frames st_still \<and>
   get_times (frames st_still) (out_frames st_still) (avg_frame_rate vs_demo) = Inl AssertFailed \<and>
   report_totals g_demo vs_demo st_still = Inl (AssertFailed, st_still)"
proof -
  have run: "read_frames g_demo dec_demo vs_demo 0
     (map Picture [frame_black, frame_black, frame_black]) st_demo = Inr st_still"
    by code_simp
  have less: "out_frames st_still < frames st_still"
    by (simp add: st_still_def)
  show ?thesis
    using run less report_totals_assertion [OF less, of vs_demo g_demo] by simp
qed

text \<open>The whole program on that input: three equal frames, no splash image.\<close>

lemma dropped_run_aborts:
  "excise_boring_bits g_demo wd_demo dec_demo vs_demo
     (map Picture [frame_black, frame_black, frame_black]) = Inl (AssertFailed, st_still)"
  by code_simp

subsection \<open>Frame differencer\<close>

declare scan_row.simps [simp del] scan_rows.simps [simp del]

lemma scan_row_none: "w \<le> x \<Longrightarrow> scan_row prev_t prev_n curr_t curr_n w y x = (Inr False, [])"
  by (simp add: scan_row.simps)

lemma scan_rows_none_width:
  "w \<le> wrap_int (bord * 3) \<Longrightarrow> scan_rows frame_prv frame_cur bord prev_t curr_t w h y = (Inr False, [])"
proof (induction frame_prv frame_cur bord prev_t curr_t w h y rule: scan_rows.induct)
  case (1 frame_prv frame_cur bord prev_t curr_t w h y)
  show ?case
  proof (cases "y < h")
    case True
    have row: "scan_row prev_t (ptr_add prev_t (linesize0 frame_prv)) curr_t
                 (ptr_add curr_t (linesize0 frame_cur)) w y (wrap_int (bord * 3)) = (Inr False, [])"
      using "1.prems" by (rule scan_row_none)
    have "scan_rows frame_prv frame_cur bord (ptr_add prev_t (linesize0 frame_prv))
            (ptr_add curr_t (linesize0 frame_cur)) w h (y + 1) = (Inr False, [])"
      using "1.IH" [OF True refl refl row [symmetric] refl refl] "1.prems" by simp
    then show ?thesis
      using True row by (subst scan_rows.simps) (simp add: Let_def)
  next
    case False
    then show ?thesis by (subst scan_rows.simps) simp
  qed
qed

lemma scan_rows_none_height:
  "h \<le> y \<Longrightarrow> scan_rows frame_prv frame_cur bord prev_t curr_t w h y = (Inr False, [])"
  by (subst scan_rows.simps) simp

lemma wrap_int_id: "- (2 ^ 31) \<le> i \<Longrightarrow> i < 2 ^ 31 \<Longrightarrow> wrap_int i = i"
  by (simp add: wrap_int_def)

text \<open>
  Claim C6 fails where the border is so large that the arithmetic of \<^verbatim>\<open>frames_differ\<close>
  leaves the range of \<^verbatim>\<open>int\<close>. For frames of 2x2 pixels and a border of 1200000000 the
  region has no extent, yet \<open>w\<close> becomes 1389934595, \<open>h\<close> becomes 1894967297 and \<open>x\<close>
  starts at \<open>-694967296\<close>: both loops run, and the first comparison reads outside the
  buffers, even of two equal frames.
\<close>

theorem frames_differ_border_overflow:
  "2 - 2 * border opt_huge \<le> 0 \<and>
   frames_differ opt_huge \<lparr>data0 = frame_black, linesize0 = 6\<rparr>
     \<lparr>data0 = frame_black, linesize0 = 6\<rparr> 2 2 =
     (Inl OutOfBounds, [(1200000000, - 694967296, - 694967296)])"
  by code_simp

text \<open>
  Claim C6, amended. For a frame size inside the range of \<^verbatim>\<open>int\<close> and a border from 0 to
  \<open>(2 ^ 31 - 1) div 6\<close>, so that no step of the arithmetic overflows: when the region left
  between the borders has no extent in one direction (or no room for the 2x2 sample),
  \<^verbatim>\<open>frames_differ\<close> returns false and calls \<^verbatim>\<open>neighbourhoods_differ\<close> at no position,
  whatever the buffers hold. The body of the column loop, the only place that compares
  and reads, is never run; nothing is said of the row loop, which does step through its
  rows when only the width is degenerate.
\<close>

theorem frames_differ_degenerate:
  assumes "0 \<le> border opt" and "6 * border opt < 2 ^ 31"
    and "0 < w" and "w < 2 ^ 31" and "0 < h" and "h < 2 ^ 31"
    and "w - 2 * border opt \<le> 1 \<or> h - 2 * border opt \<le> 1"
  shows "frames_differ opt frame_prv frame_cur w h = (Inr False, [])"
proof -
  have b2: "wrap_int (2 * border opt) = 2 * border opt"
    using assms(1,2) by (simp add: wrap_int_id)
  have b3: "wrap_int (border opt * 3) = border opt * 3"
    using assms(1,2) by (simp add: wrap_int_id)
  from assms(7) show ?thesis
  proof
    assume deg: "w - 2 * border opt \<le> 1"
    have w1: "wrap_int (w - 2 * border opt) = w - 2 * border opt"
      using assms(1-4) by (simp add: wrap_int_id)
    have w2: "wrap_int (w - 2 * border opt - 1) = w - 2 * border opt - 1"
      using assms(1-4) by (simp add: wrap_int_id)
    have w3: "wrap_int ((w - 2 * border opt - 1) * 3) = (w - 2 * border opt - 1) * 3"
      using assms(1-4) deg by (simp add: wrap_int_id)
    have "(w - 2 * border opt - 1) * 3 \<le> wrap_int (border opt * 3)"
      using deg assms(1) unfolding b3 by simp
    then show ?thesis
      unfolding frames_differ_def Let_def b2 w1 w2 w3 by (rule scan_rows_none_width)
  next
    assume deg: "h - 2 * border opt \<le> 1"
    have h1: "wrap_int (h - 2 * border opt) = h - 2 * border opt"
      using assms(1,2,5,6) by (simp add: wrap_int_id)
    have h2: "wrap_int (h - 2 * border opt - 1) = h - 2 * border opt - 1"
      using assms(1,2,5,6) by (simp add: wrap_int_id)
    have "h - 2 * border opt - 1 \<le> border opt"
      using deg assms(1) by simp
    then show ?thesis
      unfolding frames_differ_def Let_def b2 h1 h2 by (rule scan_rows_none_height)
  qed
qed

theorem frames_differ_degenerate_witness:
  "0 \<le> border opt_wide \<and> 6 * border opt_wide < 2 ^ 31 \<and>
   (0::int) < 2 \<and> (2::int) < 2 ^ 31 \<and> (0::int) < 5 \<and> (5::int) < 2 ^ 31 \<and>
   2 - 2 * border opt_wide \<le> 1 \<and>
   frames_differ opt_wide \<lparr>data0 = [], linesize0 = 6\<rparr> \<lparr>data0 = [], linesize0 = 6\<rparr> 2 5 =
     (Inr False, [])"
proof -
  have b: "0 \<le> border opt_wide" "6 * border opt_wide < 2 ^ 31"
    by (simp_all add: opt_wide_def)
  have s: "(0::int) < 2" "(2::int) < 2 ^ 31" "(0::int) < 5" "(5::int) < 2 ^ 31"
    by simp_all
  have d: "2 - 2 * border opt_wide \<le> 1"
    by (simp add: opt_wide_def)
  show ?thesis
    using b s d frames_differ_degenerate [OF b s disjI1 [OF d]] by simp
qed

text \<open>Where the loops compare.\<close>

lemma scan_row_seen:
  "(y', x', off) \<in> set (snd (scan_row prev_t prev_n curr_t curr_n w y x)) \<Longrightarrow>
     y' = y \<and> x \<le> x' \<and> x' < w \<and> off = snd prev_t + x'"
proof (induction prev_t prev_n curr_t curr_n w y x rule: scan_row.induct)
  case (1 prev_t prev_n curr_t curr_n w y x)
  show ?case
  proof (cases "x < w")
    case False
    with "1.prems" show ?thesis
      by (subst (asm) scan_row.simps) simp
  next
    case True
    show ?thesis
    proof (cases "neighbourhoods_differ prev_t prev_n curr_t curr_n x")
      case (Inl e)
      with True "1.prems" show ?thesis
        by (subst (asm) scan_row.simps) simp
    next
      case (Inr d)
      show ?thesis
      proof (cases d)
        case True
        with \<open>x < w\<close> Inr "1.prems" show ?thesis
          by (subst (asm) scan_row.simps) simp
      next
        case False
        with \<open>x < w\<close> Inr "1.prems"
        have "(y', x', off) = (y, x, snd prev_t + x) \<or>
              (y', x', off) \<in> set (snd (scan_row prev_t prev_n curr_t curr_n w y (x + 3)))"
          by (subst (asm) scan_row.simps) (simp split: prod.splits)
        then show ?thesis
        proof
          assume "(y', x', off) = (y, x, snd prev_t + x)"
          with \<open>x < w\<close> show ?thesis by simp
        next
          assume "(y', x', off) \<in> set (snd (scan_row prev_t prev_n curr_t curr_n w y (x + 3)))"
          moreover from False have "d = False" by simp
          ultimately show ?thesis
            using "1.IH" [OF \<open>x < w\<close> Inr] by simp
        qed
      qed
    qed
  qed
qed

lemma scan_rows_seen:
  "(y', x', off) \<in> set (snd (scan_rows frame_prv frame_cur bord prev_t curr_t w h y)) \<Longrightarrow>
     y \<le> y' \<and> y' < h \<and> wrap_int (bord * 3) \<le> x' \<and> x' < w \<and>
     off = snd prev_t + (y' - y) * linesize0 frame_prv + x'"
proof (induction frame_prv frame_cur bord prev_t curr_t w h y rule: scan_rows.induct)
  case (1 frame_prv frame_cur bord prev_t curr_t w h y)
  define prev_n where "prev_n = ptr_add prev_t (linesize0 frame_prv)"
  define curr_n where "curr_n = ptr_add curr_t (linesize0 frame_cur)"
  obtain r seen where row: "scan_row prev_t prev_n curr_t curr_n w y (wrap_int (bord * 3)) = (r, seen)"
    by (cases "scan_row prev_t prev_n curr_t curr_n w y (wrap_int (bord * 3))")
  show ?case
  proof (cases "y < h")
    case False
    with "1.prems" show ?thesis
      by (subst (asm) scan_rows.simps) simp
  next
    case True
    have here: "(y', x', off) \<in> set seen \<Longrightarrow> ?thesis"
      using scan_row_seen [of y' x' off prev_t prev_n curr_t curr_n w y "wrap_int (bord * 3)"] row True
      by simp
    show ?thesis
    proof (cases "r = Inr False")
      case False
      with True row "1.prems" have "(y', x', off) \<in> set seen"
        by (subst (asm) scan_rows.simps)
          (auto simp add: Let_def prev_n_def curr_n_def split: sum.splits bool.splits)
      then show ?thesis by (rule here)
    next
      case rF: True
      with True row "1.prems"
      have "(y', x', off) \<in> set seen \<or>
            (y', x', off) \<in> set (snd (scan_rows frame_prv frame_cur bord prev_n curr_n w h (y + 1)))"
        by (subst (asm) scan_rows.simps)
          (auto simp add: Let_def prev_n_def curr_n_def split: prod.splits)
      then show ?thesis
      proof
        assume "(y', x', off) \<in> set seen"
        then show ?thesis by (rule here)
      next
        assume "(y', x', off) \<in> set (snd (scan_rows frame_prv frame_cur bord prev_n curr_n w h (y + 1)))"
        from "1.IH" [OF True prev_n_def curr_n_def _ _ _ this, of "Inr False" seen False]
          row rF
        show ?thesis
          by (simp add: prev_n_def ptr_add_def algebra_simps)
      qed
    qed
  qed
qed

text \<open>
  Inside the range of \<^verbatim>\<open>int\<close> the loops of \<^verbatim>\<open>frames_differ\<close> run \<open>y\<close> from \<^verbatim>\<open>border\<close>
  below \<open>h - 2 * border - 1\<close> and \<open>x\<close> from \<open>3 * border\<close> below \<open>3 * (w - 2 * border - 1)\<close>.
\<close>

lemma frames_differ_in_range:
  assumes "0 \<le> border opt" and "6 * border opt < 2 ^ 31"
    and "0 < w" and "3 * w < 2 ^ 31" and "0 < h" and "h < 2 ^ 31"
  shows "frames_differ opt frame_prv frame_cur w h =
           scan_rows frame_prv frame_cur (border opt) (data0 frame_prv, 0) (data0 frame_cur, 0)
             ((w - 2 * border opt - 1) * 3) (h - 2 * border opt - 1) (border opt)"
proof -
  have b2: "wrap_int (2 * border opt) = 2 * border opt"
    using assms(1,2) by (simp add: wrap_int_id)
  have w1: "wrap_int (w - 2 * border opt) = w - 2 * border opt"
    using assms(1-4) by (simp add: wrap_int_id)
  have w2: "wrap_int (w - 2 * border opt - 1) = w - 2 * border opt - 1"
    using assms(1-4) by (simp add: wrap_int_id)
  have w3: "wrap_int ((w - 2 * border opt - 1) * 3) = (w - 2 * border opt - 1) * 3"
    using assms(1-4) by (simp add: wrap_int_id)
  have h1: "wrap_int (h - 2 * border opt) = h - 2 * border opt"
    using assms(1,2,5,6) by (simp add: wrap_int_id)
  have h2: "wrap_int (h - 2 * border opt - 1) = h - 2 * border opt - 1"
    using assms(1,2,5,6) by (simp add: wrap_int_id)
  show ?thesis
    unfolding frames_differ_def Let_def b2 w1 w2 w3 h1 h2 by (rule refl)
qed

lemma wrap_int_border:
  "0 \<le> border opt \<Longrightarrow> 6 * border opt < 2 ^ 31 \<Longrightarrow> wrap_int (border opt * 3) = border opt * 3"
  by (simp add: wrap_int_id)

text \<open>
  Every block that \<^verbatim>\<open>frames_differ\<close> compares then has its counters in
  \<open>border \<le> y < h - 2 * border - 1\<close> and \<open>3 * border \<le> x < 3 * (w - 2 * border - 1)\<close>, and its
  top left pixel in row \<open>y - border\<close> of the buffer.
\<close>

lemma frames_differ_seen:
  assumes "(y, x, off) \<in> set (snd (frames_differ opt frame_prv frame_cur w h))"
    and "0 \<le> border opt" and "6 * border opt < 2 ^ 31"
    and "0 < w" and "3 * w < 2 ^ 31" and "0 < h" and "h < 2 ^ 31"
  shows "border opt \<le> y \<and> y < h - 2 * border opt - 1 \<and>
         3 * border opt \<le> x \<and> x < 3 * (w - 2 * border opt - 1) \<and>
         off = (y - border opt) * linesize0 frame_prv + x"
  using scan_rows_seen [of y x off frame_prv frame_cur "border opt" "(data0 frame_prv, 0)"
      "(data0 frame_cur, 0)" "(w - 2 * border opt - 1) * 3" "h - 2 * border opt - 1" "border opt"]
    assms(1) frames_differ_in_range [OF assms(2-7), of frame_prv frame_cur]
    wrap_int_border [OF assms(2,3)]
  by simp

text \<open>A row that ends without a difference has compared every block of the row.\<close>

lemma scan_row_false:
  "fst (scan_row prev_t prev_n curr_t curr_n w y x) = Inr False \<Longrightarrow> 0 \<le> k \<Longrightarrow>
     x + 3 * k < w \<Longrightarrow> neighbourhoods_differ prev_t prev_n curr_t curr_n (x + 3 * k) = Inr False"
proof (induction prev_t prev_n curr_t curr_n w y x arbitrary: k rule: scan_row.induct)
  case (1 prev_t prev_n curr_t curr_n w y x)
  from "1.prems"(2,3) have xw: "x < w" by simp
  have "neighbourhoods_differ prev_t prev_n curr_t curr_n x = Inr False \<and>
        fst (scan_row prev_t prev_n curr_t curr_n w y (x + 3)) = Inr False"
    using "1.prems"(1) xw
    by (subst (asm) scan_row.simps) (simp split: sum.splits bool.splits prod.splits)
  then have here: "neighbourhoods_differ prev_t prev_n curr_t curr_n x = Inr False"
    and rest: "fst (scan_row prev_t prev_n curr_t curr_n w y (x + 3)) = Inr False"
    by simp_all
  show ?case
  proof (cases "k = 0")
    case True
    with here show ?thesis by simp
  next
    case False
    with "1.prems"(2) have k: "0 \<le> k - 1" by simp
    have lt: "x + 3 + 3 * (k - 1) < w"
      using "1.prems"(3) by simp
    from "1.IH" [OF xw here refl rest k lt] show ?thesis
      by (simp add: algebra_simps)
  qed
qed

text \<open>
  A row that ends with a difference has found it at the last block it compared, and
  none at the blocks before.
\<close>

lemma scan_row_true:
  "scan_row prev_t prev_n curr_t curr_n w y x = (Inr True, seen) \<Longrightarrow>
     seen \<noteq> [] \<and>
     neighbourhoods_differ prev_t prev_n curr_t curr_n (fst (snd (last seen))) = Inr True \<and>
     (\<forall>p \<in> set (butlast seen).
        neighbourhoods_differ prev_t prev_n curr_t curr_n (fst (snd p)) = Inr False)"
proof (induction prev_t prev_n curr_t curr_n w y x arbitrary: seen rule: scan_row.induct)
  case (1 prev_t prev_n curr_t curr_n w y x)
  from "1.prems" have xw: "x < w"
    by (subst (asm) scan_row.simps) (simp split: if_splits)
  show ?case
  proof (cases "neighbourhoods_differ prev_t prev_n curr_t curr_n x")
    case (Inl e)
    with "1.prems" xw show ?thesis
      by (subst (asm) scan_row.simps) simp
  next
    case (Inr d)
    show ?thesis
    proof (cases d)
      case True
      with "1.prems" xw Inr have "seen = [(y, x, snd prev_t + x)]"
        by (subst (asm) scan_row.simps) simp
      with Inr True show ?thesis by simp
    next
      case False
      then have dF: "d = False" by simp
      obtain r seen' where rest: "scan_row prev_t prev_n curr_t curr_n w y (x + 3) = (r, seen')"
        by (cases "scan_row prev_t prev_n curr_t curr_n w y (x + 3)")
      with "1.prems" xw Inr dF have r: "r = Inr True" and s: "seen = (y, x, snd prev_t + x) # seen'"
        by (subst (asm) scan_row.simps, simp)+
      from "1.IH" [OF xw Inr dF] rest r
      have ih: "seen' \<noteq> [] \<and>
         neighbourhoods_differ prev_t prev_n curr_t curr_n (fst (snd (last seen'))) = Inr True \<and>
         (\<forall>p \<in> set (butlast seen').
            neighbourhoods_differ prev_t prev_n curr_t curr_n (fst (snd p)) = Inr False)"
        by simp
      then show ?thesis
        using s Inr dF by simp
    qed
  qed
qed


lemma scan_row_false_seen:
  "scan_row prev_t prev_n curr_t curr_n w y x = (Inr False, seen) \<Longrightarrow> p \<in> set seen \<Longrightarrow>
     fst p = y \<and> neighbourhoods_differ prev_t prev_n curr_t curr_n (fst (snd p)) = Inr False"
proof (induction prev_t prev_n curr_t curr_n w y x arbitrary: seen rule: scan_row.induct)
  case (1 prev_t prev_n curr_t curr_n w y x)
  show ?case
  proof (cases "x < w")
    case False
    with "1.prems" show ?thesis
      by (subst (asm) scan_row.simps) simp
  next
    case xw: True
    obtain r seen' where rest: "scan_row prev_t prev_n curr_t curr_n w y (x + 3) = (r, seen')"
      by (cases "scan_row prev_t prev_n curr_t curr_n w y (x + 3)")
    from "1.prems"(1) xw rest
    have here: "neighbourhoods_differ prev_t prev_n curr_t curr_n x = Inr False"
      and r: "r = Inr False" and s: "seen = (y, x, snd prev_t + x) # seen'"
      by (subst (asm) scan_row.simps, simp split: sum.splits bool.splits)+
    from "1.prems"(2) s have "p = (y, x, snd prev_t + x) \<or> p \<in> set seen'"
      by simp
    then show ?thesis
    proof
      assume "p = (y, x, snd prev_t + x)"
      with here show ?thesis by simp
    next
      assume "p \<in> set seen'"
      with "1.IH" [OF xw here refl] rest r show ?thesis by simp
    qed
  qed
qed

lemma block_call_here:
  "block_call frame_prv frame_cur prev_t curr_t 0 x =
     neighbourhoods_differ prev_t (ptr_add prev_t (linesize0 frame_prv))
       curr_t (ptr_add curr_t (linesize0 frame_cur)) x"
  by (simp add: block_call_def ptr_add_def)

lemma block_call_shift:
  "block_call frame_prv frame_cur (ptr_add prev_t (linesize0 frame_prv))
     (ptr_add curr_t (linesize0 frame_cur)) dy x =
   block_call frame_prv frame_cur prev_t curr_t (dy + 1) x"
  by (simp add: block_call_def ptr_add_def algebra_simps)

text \<open>The first component of one step of the outer loop.\<close>

lemma scan_rows_step:
  assumes "y < h"
    and "scan_row prev_t (ptr_add prev_t (linesize0 frame_prv)) curr_t
           (ptr_add curr_t (linesize0 frame_cur)) w y (wrap_int (bord * 3)) = (r, seen)"
  shows "scan_rows frame_prv frame_cur bord prev_t curr_t w h y =
           (if r = Inr False
            then (fst (scan_rows frame_prv frame_cur bord (ptr_add prev_t (linesize0 frame_prv))
                         (ptr_add curr_t (linesize0 frame_cur)) w h (y + 1)),
                  seen @ snd (scan_rows frame_prv frame_cur bord (ptr_add prev_t (linesize0 frame_prv))
                         (ptr_add curr_t (linesize0 frame_cur)) w h (y + 1)))
            else (r, seen))"
  using assms
  by (subst scan_rows.simps) (simp add: Let_def split: sum.splits bool.splits prod.splits)

lemma scan_rows_false:
  "fst (scan_rows frame_prv frame_cur bord prev_t curr_t w h y) = Inr False \<Longrightarrow>
     0 \<le> j \<Longrightarrow> y + j < h \<Longrightarrow> 0 \<le> k \<Longrightarrow> wrap_int (bord * 3) + 3 * k < w \<Longrightarrow>
     block_call frame_prv frame_cur prev_t curr_t j (wrap_int (bord * 3) + 3 * k) = Inr False"
proof (induction frame_prv frame_cur bord prev_t curr_t w h y arbitrary: j
    rule: scan_rows.induct)
  case (1 frame_prv frame_cur bord prev_t curr_t w h y)
  define prev_n where "prev_n = ptr_add prev_t (linesize0 frame_prv)"
  define curr_n where "curr_n = ptr_add curr_t (linesize0 frame_cur)"
  from "1.prems"(2,3) have yh: "y < h" by simp
  obtain r seen where row: "scan_row prev_t prev_n curr_t curr_n w y (wrap_int (bord * 3)) = (r, seen)"
    by (cases "scan_row prev_t prev_n curr_t curr_n w y (wrap_int (bord * 3))")
  note step = scan_rows_step [OF yh row [unfolded prev_n_def curr_n_def], folded prev_n_def curr_n_def]
  from "1.prems"(1) have r: "r = Inr False"
    unfolding step by (simp split: if_splits)
  with "1.prems"(1) have rest: "fst (scan_rows frame_prv frame_cur bord prev_n curr_n w h (y + 1)) = Inr False"
    unfolding step by simp
  show ?case
  proof (cases "j = 0")
    case True
    from row r have "fst (scan_row prev_t prev_n curr_t curr_n w y (wrap_int (bord * 3))) = Inr False"
      by simp
    from scan_row_false [OF this "1.prems"(4,5)] True show ?thesis
      by (simp add: block_call_here prev_n_def curr_n_def)
  next
    case False
    with "1.prems"(2,3) have j: "0 \<le> j - 1" "y + 1 + (j - 1) < h" by simp_all
    from "1.IH" [OF yh prev_n_def curr_n_def row [symmetric] _ _ rest j "1.prems"(4,5)] r
    have "block_call frame_prv frame_cur prev_n curr_n (j - 1) (wrap_int (bord * 3) + 3 * k) = Inr False"
      by blast
    then show ?thesis
      by (simp add: prev_n_def curr_n_def block_call_shift)
  qed
qed


lemma scan_rows_true:
  "scan_rows frame_prv frame_cur bord prev_t curr_t w h y = (Inr True, seen) \<Longrightarrow>
     seen \<noteq> [] \<and>
     block_call frame_prv frame_cur prev_t curr_t (fst (last seen) - y) (fst (snd (last seen))) =
       Inr True \<and>
     (\<forall>p \<in> set (butlast seen).
        block_call frame_prv frame_cur prev_t curr_t (fst p - y) (fst (snd p)) = Inr False)"
proof (induction frame_prv frame_cur bord prev_t curr_t w h y arbitrary: seen
    rule: scan_rows.induct)
  case (1 frame_prv frame_cur bord prev_t curr_t w h y)
  define prev_n where "prev_n = ptr_add prev_t (linesize0 frame_prv)"
  define curr_n where "curr_n = ptr_add curr_t (linesize0 frame_cur)"
  from "1.prems" have yh: "y < h"
    by (subst (asm) scan_rows.simps) (simp split: if_splits)
  obtain r row_seen where row: "scan_row prev_t prev_n curr_t curr_n w y (wrap_int (bord * 3)) = (r, row_seen)"
    by (cases "scan_row prev_t prev_n curr_t curr_n w y (wrap_int (bord * 3))")
  note step = scan_rows_step [OF yh row [unfolded prev_n_def curr_n_def], folded prev_n_def curr_n_def]
  show ?case
  proof (cases "r = Inr False")
    case False
    with "1.prems" have r: "r = Inr True" and s: "seen = row_seen"
      unfolding step by simp_all
    from scan_row_true [OF row [unfolded r]]
    have a: "row_seen \<noteq> []"
      and b: "neighbourhoods_differ prev_t prev_n curr_t curr_n (fst (snd (last row_seen))) = Inr True"
      and c: "\<forall>p \<in> set (butlast row_seen).
                neighbourhoods_differ prev_t prev_n curr_t curr_n (fst (snd p)) = Inr False"
      by simp_all
    have y: "fst p = y" if "p \<in> set row_seen" for p
    proof -
      obtain y' x' off where p: "p = (y', x', off)" by (cases p)
      with that scan_row_seen [of y' x' off prev_t prev_n curr_t curr_n w y "wrap_int (bord * 3)"] row
      show ?thesis by simp
    qed
    have "fst (last row_seen) = y"
      using a by (simp add: y)
    moreover have "fst p = y" if "p \<in> set (butlast row_seen)" for p
      using that by (simp add: y in_set_butlastD)
    ultimately show ?thesis
      using a b c unfolding s
      by (simp add: block_call_here prev_n_def curr_n_def)
  next
    case True
    obtain seen' where rest: "scan_rows frame_prv frame_cur bord prev_n curr_n w h (y + 1) =
        (Inr True, seen')" and s: "seen = row_seen @ seen'"
      using "1.prems" True unfolding step
      by (cases "scan_rows frame_prv frame_cur bord prev_n curr_n w h (y + 1)") simp
    from "1.IH" [OF yh prev_n_def curr_n_def row [symmetric] _ _ rest] True
    have ih: "seen' \<noteq> [] \<and>
       block_call frame_prv frame_cur prev_n curr_n (fst (last seen') - (y + 1))
         (fst (snd (last seen'))) = Inr True \<and>
       (\<forall>p \<in> set (butlast seen').
          block_call frame_prv frame_cur prev_n curr_n (fst p - (y + 1)) (fst (snd p)) = Inr False)"
      by blast
    have shift: "block_call frame_prv frame_cur prev_n curr_n (a - (y + 1)) x =
                 block_call frame_prv frame_cur prev_t curr_t (a - y) x" for a x
      by (simp add: prev_n_def curr_n_def block_call_shift)
    have rowp: "block_call frame_prv frame_cur prev_t curr_t (fst p - y) (fst (snd p)) = Inr False"
      if "p \<in> set row_seen" for p
      using scan_row_false_seen [OF row [unfolded True] that]
      by (simp add: block_call_here prev_n_def curr_n_def)
    from ih have ne: "seen' \<noteq> []" by simp
    have "butlast seen = row_seen @ butlast seen'" "last seen = last seen'"
      using ne by (simp_all add: s butlast_append)
    then show ?thesis
      using ih rowp ne s by (auto simp add: shift)
  qed
qed

text \<open>
  What the code does. A result of false means that every block of the code's region was
  compared and none classified as different; a result of true means that the last block
  compared was classified as different and none before it.
\<close>

lemma frames_differ_false:
  assumes "fst (frames_differ opt frame_prv frame_cur w h) = Inr False"
    and "0 \<le> border opt" and "6 * border opt < 2 ^ 31"
    and "0 < w" and "3 * w < 2 ^ 31" and "0 < h" and "h < 2 ^ 31"
    and "border opt \<le> y" and "y < h - 2 * border opt - 1"
    and "border opt \<le> c" and "c < w - 2 * border opt - 1"
  shows "compare_at opt frame_prv frame_cur y (3 * c) = Inr False"
proof -
  note r = frames_differ_in_range [OF assms(2-7), of frame_prv frame_cur]
  have "fst (scan_rows frame_prv frame_cur (border opt) (data0 frame_prv, 0) (data0 frame_cur, 0)
               ((w - 2 * border opt - 1) * 3) (h - 2 * border opt - 1) (border opt)) = Inr False"
    using assms(1) by (simp add: r)
  from scan_rows_false [OF this, of "y - border opt" "c - border opt"] assms(8-11)
  show ?thesis
    by (simp add: compare_at_def wrap_int_border [OF assms(2,3)] algebra_simps)
qed

lemma frames_differ_true:
  assumes "frames_differ opt frame_prv frame_cur w h = (Inr True, seen)"
  shows "seen \<noteq> [] \<and>
         compare_at opt frame_prv frame_cur (fst (last seen)) (fst (snd (last seen))) = Inr True \<and>
         (\<forall>p \<in> set (butlast seen).
            compare_at opt frame_prv frame_cur (fst p) (fst (snd p)) = Inr False)"
proof -
  have "\<exists>w' h'. scan_rows frame_prv frame_cur (border opt) (data0 frame_prv, 0) (data0 frame_cur, 0)
               w' h' (border opt) = (Inr True, seen)"
    using assms by (auto simp add: frames_differ_def Let_def)
  then obtain w' h' where "scan_rows frame_prv frame_cur (border opt) (data0 frame_prv, 0)
      (data0 frame_cur, 0) w' h' (border opt) = (Inr True, seen)"
    by blast
  from scan_rows_true [OF this] show ?thesis
    by (simp add: compare_at_def)
qed

text \<open>
  Claim C3, at inputs where the code departs from it. For frames of 5x5 pixels and a
  border of 1 the claim names rows 1 to 3 and columns 1 to 3. The loops run \<open>y\<close> from
  \<^verbatim>\<open>border\<close> while \<open>y < h - 2 * border - 1\<close> and \<open>x\<close> from \<^verbatim>\<open>3 * border\<close> while
  \<open>x < 3 * (w - 2 * border - 1)\<close>, with the row pointers starting at \<^verbatim>\<open>data[0]\<close>, row 0:
  the only block compared is the one at \<open>(y, x) = (1, 3)\<close>, whose top left pixel is at byte
  3 of the buffer: rows 0 and 1, columns 1 and 2.
  So a change of the whole block of rows 2 and 3, columns 2 and 3, which
  \<^verbatim>\<open>neighbourhoods_differ\<close> classifies as different, goes unseen, and a change of rows 0
  and 1, with row 0 inside the border, is reported. (What the claim says of the order
  holds of the blocks that are compared: \<open>frames_differ_true\<close>, \<open>frames_differ_false\<close>.)
\<close>

theorem frames_differ_scans_other_region:
  "neighbourhoods_differ (frame5_plain, 30) (frame5_plain, 45)
     (frame5_inner, 30) (frame5_inner, 45) 6 = Inr True \<and>
   frames_differ opt_wide \<lparr>data0 = frame5_plain, linesize0 = 15\<rparr>
     \<lparr>data0 = frame5_inner, linesize0 = 15\<rparr> 5 5 = (Inr False, [(1, 3, 3)]) \<and>
   frames_differ opt_wide \<lparr>data0 = frame5_plain, linesize0 = 15\<rparr>
     \<lparr>data0 = frame5_top, linesize0 = 15\<rparr> 5 5 = (Inr True, [(1, 3, 3)])"
  by code_simp

subsection \<open>Skip accumulator\<close>

lemma say_fields [simp]:
  "frames (say g lev m st) = frames st"
  "out_frames (say g lev m st) = out_frames st"
  "skip (say g lev m st) = skip st"
  "frame_prev (say g lev m st) = frame_prev st"
  "frame_curr (say g lev m st) = frame_curr st"
  "linked (say g lev m st) = linked st"
  "written (say g lev m st) = written st"
  "differ_calls (say g lev m st) = differ_calls st"
  "printed (say g lev m st) = LOG (level g) lev m (printed st)"
  by (simp_all add: say_def)

text \<open>
  Claim C9. The first frame of the stream (\<^verbatim>\<open>frames == 0\<close>, the skip counter still 0) is
  taken as different whatever it holds and without a call of \<^verbatim>\<open>frames_differ\<close>: it is
  swapped into \<^verbatim>\<open>frame_prev\<close>, written under the next output index, and the skip counter
  is 0 afterwards.
\<close>

theorem first_frame_is_different:
  assumes "frames st = 0" and "skip st = 0" and "0 \<le> slack_f"
  shows "\<exists>st'. handle_frame g dec_ctx vs slack_f rgb st = Inr st' \<and>
           frame_prev st' = (frame_curr st)\<lparr>data0 := rgb\<rparr> \<and>
           frame_curr st' = frame_prev st \<and>
           written st' = written st @ [(out_frames st, rgb)] \<and>
           out_frames st' = out_frames st + 1 \<and>
           skip st' = 0 \<and> frames st' = 1 \<and>
           differ_calls st' = differ_calls st \<and>
           printed st' = LOG (level g) LOG_DEBUG (MsgDifferent 0) (printed st)"
  using assms
  by (simp add: handle_frame_def frame_different_def finish_frame_def Let_def)

theorem first_frame_is_different_witness:
 "frames st_demo = 0 \<and> skip st_demo = 0 \<and> (0::int) \<le> 0 \<and>
  (\<exists>st'. handle_frame g_demo dec_demo vs_demo 0 frame_white st_demo = Inr st' \<and>
           frame_prev st' = (frame_curr st_demo)\<lparr>data0 := frame_white\<rparr> \<and>
           frame_curr st' = frame_prev st_demo \<and>
           written st' = written st_demo @ [(out_frames st_demo, frame_white)] \<and>
           out_frames st' = out_frames st_demo + 1 \<and>
           skip st' = 0 \<and> frames st' = 1 \<and>
           differ_calls st' = differ_calls st_demo \<and>
           printed st' = LOG (level g_demo) LOG_DEBUG (MsgDifferent 0) (printed st_demo))"
proof -
  have a: "frames st_demo = 0" and b: "skip st_demo = 0" and c: "(0::int) \<le> 0"
    by (simp_all add: st_demo_def)
  show ?thesis
    using a b first_frame_is_different [OF a b c, of g_demo dec_demo vs_demo frame_white]
    by simp
qed

text \<open>One frame classified same, in a state that is not the first.\<close>

lemma handle_frame_same:
  assumes "frames st \<noteq> 0"
    and "fst (frames_differ (opts g) (frame_prev st) ((frame_curr st)\<lparr>data0 := rgb\<rparr>)
           (width dec_ctx) (height dec_ctx)) = Inr False"
  shows "\<exists>st'. handle_frame g dec_ctx vs slack_f rgb st = Inr st' \<and>
           frames st' = frames st + 1 \<and> skip st' = skip st + 1 \<and>
           frame_prev st' = frame_prev st \<and>
           frame_curr st' = (frame_curr st)\<lparr>data0 := rgb\<rparr> \<and>
           linked st' = linked st \<and>
           (if skip st + 1 > slack_f
            then written st' = written st \<and> out_frames st' = out_frames st
            else written st' = written st @ [(out_frames st, data0 (frame_prev st))] \<and>
                 out_frames st' = out_frames st + 1)"
  using assms
  by (simp add: handle_frame_def frame_same_def finish_frame_def Let_def)

text \<open>How many of \<open>k\<close> further same frames are written when the counter stands at \<open>c\<close>.\<close>

lemma same_run:
  assumes "frames st \<noteq> 0" and "0 \<le> frames st" and "0 \<le> skip st"
    and "\<forall>rgb \<in> set sames.
           fst (frames_differ (opts g) (frame_prev st) ((frame_curr st)\<lparr>data0 := rgb\<rparr>)
             (width dec_ctx) (height dec_ctx)) = Inr False"
  shows "\<exists>st'. read_frames g dec_ctx vs slack_f (map Picture sames) st = Inr st' \<and>
           frames st' = frames st + int (length sames) \<and>
           skip st' = skip st + int (length sames) \<and>
           frame_prev st' = frame_prev st \<and>
           linked st' = linked st \<and>
           out_frames st' = out_frames st + max 0 (min (int (length sames)) (slack_f - skip st)) \<and>
           written st' = written st @
             map (\<lambda>i. (out_frames st + int i, data0 (frame_prev st)))
               [0..<nat (min (int (length sames)) (slack_f - skip st))]"
  using assms
proof (induction sames arbitrary: st)
  case Nil
  then show ?case by simp
next
  case (Cons rgb sames)
  from Cons.prems(4)
  have same: "fst (frames_differ (opts g) (frame_prev st) ((frame_curr st)\<lparr>data0 := rgb\<rparr>)
           (width dec_ctx) (height dec_ctx)) = Inr False"
    by simp
  from handle_frame_same [OF Cons.prems(1) same, of vs slack_f]
  obtain st1 where st1: "handle_frame g dec_ctx vs slack_f rgb st = Inr st1"
    and f1: "frames st1 = frames st + 1" and s1: "skip st1 = skip st + 1"
    and p1: "frame_prev st1 = frame_prev st"
    and c1: "frame_curr st1 = (frame_curr st)\<lparr>data0 := rgb\<rparr>"
    and l1: "linked st1 = linked st"
    and w1: "if skip st + 1 > slack_f
            then written st1 = written st \<and> out_frames st1 = out_frames st
            else written st1 = written st @ [(out_frames st, data0 (frame_prev st))] \<and>
                 out_frames st1 = out_frames st + 1"
    by blast
  have rest: "\<forall>rgb \<in> set sames.
           fst (frames_differ (opts g) (frame_prev st1) ((frame_curr st1)\<lparr>data0 := rgb\<rparr>)
             (width dec_ctx) (height dec_ctx)) = Inr False"
    using Cons.prems(4) by (simp add: p1 c1)
  have "frames st1 \<noteq> 0" "0 \<le> frames st1" "0 \<le> skip st1"
    using Cons.prems(1-3) f1 s1 by simp_all
  from Cons.IH [OF this rest]
  obtain st' where run: "read_frames g dec_ctx vs slack_f (map Picture sames) st1 = Inr st'"
    and f': "frames st' = frames st1 + int (length sames)"
    and s': "skip st' = skip st1 + int (length sames)"
    and p': "frame_prev st' = frame_prev st1"
    and l': "linked st' = linked st1"
    and o': "out_frames st' = out_frames st1 + max 0 (min (int (length sames)) (slack_f - skip st1))"
    and w': "written st' = written st1 @
             map (\<lambda>i. (out_frames st1 + int i, data0 (frame_prev st1)))
               [0..<nat (min (int (length sames)) (slack_f - skip st1))]"
    by blast
  have whole: "read_frames g dec_ctx vs slack_f (map Picture (rgb # sames)) st = Inr st'"
    using st1 run by simp
  show ?case
  proof (cases "skip st + 1 > slack_f")
    case True
    then have "written st1 = written st" "out_frames st1 = out_frames st"
      using w1 by simp_all
    moreover have "nat (min (int (length sames)) (slack_f - skip st1)) = 0"
      "nat (min (int (length (rgb # sames))) (slack_f - skip st)) = 0"
      using True s1 by simp_all
    ultimately show ?thesis
      using whole f' s' p' l' o' w' f1 s1 p1 l1 True by simp
  next
    case False
    then have w: "written st1 = written st @ [(out_frames st, data0 (frame_prev st))]"
      and o: "out_frames st1 = out_frames st + 1"
      using w1 by simp_all
    define n where "n = nat (min (int (length sames)) (slack_f - skip st1))"
    have n: "nat (min (int (length (rgb # sames))) (slack_f - skip st)) = Suc n"
    proof -
      have a: "min (int (length (rgb # sames))) (slack_f - skip st) =
               1 + min (int (length sames)) (slack_f - skip st1)"
        using s1 by simp
      have b: "0 \<le> min (int (length sames)) (slack_f - skip st1)"
        using False s1 by simp
      show ?thesis
        unfolding a n_def using b by (simp add: nat_add_distrib)
    qed
    have m: "map (\<lambda>i. (out_frames st + int i, data0 (frame_prev st))) [0..<Suc n] =
             (out_frames st, data0 (frame_prev st)) #
             map (\<lambda>i. (out_frames st + 1 + int i, data0 (frame_prev st))) [0..<n]"
    proof -
      have "[0..<Suc n] = 0 # map Suc [0..<n]"
        by (simp only: map_Suc_upt upt_conv_Cons [of 0 "Suc n"] zero_less_Suc if_True)
      then show ?thesis
        by (simp only: list.map map_map o_def of_nat_Suc of_nat_0) (simp add: add.commute add.left_commute)
    qed
    have "out_frames st' = out_frames st + max 0 (min (int (length (rgb # sames))) (slack_f - skip st))"
      using o' o s1 False by (simp add: min_def max_def)
    moreover have "written st' = written st @
             map (\<lambda>i. (out_frames st + int i, data0 (frame_prev st)))
               [0..<nat (min (int (length (rgb # sames))) (slack_f - skip st))]"
      unfolding n m using w' w o p1 by (simp add: n_def)
    ultimately show ?thesis
      using whole f' s' p' l' f1 s1 p1 l1 by simp
  qed
qed


lemma get_times_defined:
  assumes "f1 \<le> f2" and "num fps \<noteq> 0"
  shows "\<exists>s1 m1 h1 s2 m2 h2. get_times f1 f2 fps = Inr (s1, m1, h1, s2, m2, h2)"
  using assms
  by (simp add: get_times_def c_div_def bindE_def Let_def split: prod.splits)

text \<open>One frame classified different.\<close>

lemma handle_frame_different:
  assumes "frames st = 0 \<or>
           fst (frames_differ (opts g) (frame_prev st) ((frame_curr st)\<lparr>data0 := rgb\<rparr>)
             (width dec_ctx) (height dec_ctx)) = Inr True"
    and "num (avg_frame_rate vs) \<noteq> 0"
  shows "\<exists>st'. handle_frame g dec_ctx vs slack_f rgb st = Inr st' \<and>
           frames st' = frames st + 1 \<and> skip st' = 0 \<and>
           frame_prev st' = (frame_curr st)\<lparr>data0 := rgb\<rparr> \<and>
           frame_curr st' = frame_prev st \<and>
           linked st' = linked st \<and>
           written st' = written st @ [(out_frames st, rgb)] \<and>
           out_frames st' = out_frames st + 1"
proof -
  have diff: "\<And>s. frames s = frames st \<Longrightarrow> skip s = skip st \<Longrightarrow>
      \<exists>st'. frame_different g vs slack_f s = Inr st' \<and>
           frames st' = frames s + 1 \<and> skip st' = 0 \<and>
           frame_prev st' = frame_curr s \<and>
           frame_curr st' = frame_prev s \<and>
           linked st' = linked s \<and>
           written st' = written s @ [(out_frames s, data0 (frame_curr s))] \<and>
           out_frames st' = out_frames s + 1"
  proof -
    fix s :: state
    show "\<exists>st'. frame_different g vs slack_f s = Inr st' \<and>
           frames st' = frames s + 1 \<and> skip st' = 0 \<and>
           frame_prev st' = frame_curr s \<and>
           frame_curr st' = frame_prev s \<and>
           linked st' = linked s \<and>
           written st' = written s @ [(out_frames s, data0 (frame_curr s))] \<and>
           out_frames st' = out_frames s + 1"
    proof (cases "skip s > slack_f")
      case True
      then have "frames s - (skip s - slack_f) \<le> frames s" by simp
      from get_times_defined [OF this assms(2)]
      obtain s1 m1 h1 s2 m2 h2 where
        "get_times (frames s - (skip s - slack_f)) (frames s) (avg_frame_rate vs) =
           Inr (s1, m1, h1, s2, m2, h2)"
        by blast
      with True show ?thesis
        by (simp add: frame_different_def finish_frame_def Let_def)
    next
      case False
      then show ?thesis
        by (simp add: frame_different_def finish_frame_def Let_def)
    qed
  qed
  show ?thesis
  proof (cases "frames st = 0")
    case True
    with diff [of "st\<lparr>frame_curr := (frame_curr st)\<lparr>data0 := rgb\<rparr>\<rparr>"] show ?thesis
      by (simp add: handle_frame_def Let_def)
  next
    case False
    with assms(1) have "fst (frames_differ (opts g) (frame_prev st)
        ((frame_curr st)\<lparr>data0 := rgb\<rparr>) (width dec_ctx) (height dec_ctx)) = Inr True"
      by simp
    with False
      diff [of "st\<lparr>frame_curr := (frame_curr st)\<lparr>data0 := rgb\<rparr>,
                   differ_calls := differ_calls st + 1\<rparr>"]
    show ?thesis
      by (simp add: handle_frame_def Let_def)
  qed
qed


text \<open>A frame classified different, then any number of frames classified same.\<close>

lemma different_then_same:
  assumes "0 \<le> frames st" and "num (avg_frame_rate vs) \<noteq> 0"
    and "frames st = 0 \<or>
         fst (frames_differ (opts g) (frame_prev st) ((frame_curr st)\<lparr>data0 := d\<rparr>)
           (width dec_ctx) (height dec_ctx)) = Inr True"
    and "\<forall>rgb \<in> set sames.
           fst (frames_differ (opts g) ((frame_curr st)\<lparr>data0 := d\<rparr>)
             ((frame_prev st)\<lparr>data0 := rgb\<rparr>) (width dec_ctx) (height dec_ctx)) = Inr False"
  shows "\<exists>st'. read_frames g dec_ctx vs slack_f (Picture d # map Picture sames) st = Inr st' \<and>
           frames st' = frames st + 1 + int (length sames) \<and>
           skip st' = int (length sames) \<and>
           frame_prev st' = (frame_curr st)\<lparr>data0 := d\<rparr> \<and>
           out_frames st' = out_frames st + 1 + max 0 (min (int (length sames)) slack_f) \<and>
           written st' = written st @ (out_frames st, d) #
             map (\<lambda>i. (out_frames st + 1 + int i, d)) [0..<nat (min (int (length sames)) slack_f)]"
proof -
  from handle_frame_different [OF assms(3) assms(2), of slack_f]
  obtain st1 where st1: "handle_frame g dec_ctx vs slack_f d st = Inr st1"
    and f1: "frames st1 = frames st + 1" and s1: "skip st1 = 0"
    and p1: "frame_prev st1 = (frame_curr st)\<lparr>data0 := d\<rparr>"
    and c1: "frame_curr st1 = frame_prev st"
    and w1: "written st1 = written st @ [(out_frames st, d)]"
    and o1: "out_frames st1 = out_frames st + 1"
    by blast
  have a: "frames st1 \<noteq> 0" "0 \<le> frames st1" "0 \<le> skip st1"
    using assms(1) f1 s1 by simp_all
  have b: "\<forall>rgb \<in> set sames.
           fst (frames_differ (opts g) (frame_prev st1) ((frame_curr st1)\<lparr>data0 := rgb\<rparr>)
             (width dec_ctx) (height dec_ctx)) = Inr False"
    using assms(4) by (simp add: p1 c1)
  from same_run [OF a b, of vs slack_f]
  obtain st' where run: "read_frames g dec_ctx vs slack_f (map Picture sames) st1 = Inr st'"
    and f': "frames st' = frames st1 + int (length sames)"
    and s': "skip st' = skip st1 + int (length sames)"
    and p': "frame_prev st' = frame_prev st1"
    and o': "out_frames st' = out_frames st1 + max 0 (min (int (length sames)) (slack_f - skip st1))"
    and w': "written st' = written st1 @
             map (\<lambda>i. (out_frames st1 + int i, data0 (frame_prev st1)))
               [0..<nat (min (int (length sames)) (slack_f - skip st1))]"
    by blast
  have "read_frames g dec_ctx vs slack_f (Picture d # map Picture sames) st = Inr st'"
    using st1 run by simp
  then show ?thesis
    using f' s' p' o' w' f1 s1 p1 w1 o1 by simp
qed

text \<open>
  Claim C1. With a slack of \<open>S\<close> frames, a frame classified different followed by \<open>K > S\<close>
  frames classified same (against the frame retained from the different one) makes
  exactly \<open>S + 1\<close> writes, the different frame and \<open>S\<close> more of the same retained
  pixels under consecutive output indices, and drops \<open>K - S\<close> frames; after each of the
  \<open>K\<close> frames the retained frame is still the different one, and from the \<open>S\<close>-th on the
  output index stands still.
\<close>

theorem slack_run:
  assumes "0 \<le> slack_f" and "slack_f < int (length sames)"
    and "0 \<le> frames st" and "num (avg_frame_rate vs) \<noteq> 0"
    and "frames st = 0 \<or>
         fst (frames_differ (opts g) (frame_prev st) ((frame_curr st)\<lparr>data0 := d\<rparr>)
           (width dec_ctx) (height dec_ctx)) = Inr True"
    and "\<forall>rgb \<in> set sames.
           fst (frames_differ (opts g) ((frame_curr st)\<lparr>data0 := d\<rparr>)
             ((frame_prev st)\<lparr>data0 := rgb\<rparr>) (width dec_ctx) (height dec_ctx)) = Inr False"
  shows "(\<exists>st'. read_frames g dec_ctx vs slack_f (Picture d # map Picture sames) st = Inr st' \<and>
            out_frames st' - out_frames st = slack_f + 1 \<and>
            written st' = written st @ (out_frames st, d) #
              map (\<lambda>i. (out_frames st + 1 + int i, d)) [0..<nat slack_f] \<and>
            (frames st' - frames st) - (out_frames st' - out_frames st) =
              int (length sames) - slack_f) \<and>
         (\<forall>n \<le> length sames.
            \<exists>st'. read_frames g dec_ctx vs slack_f (Picture d # map Picture (take n sames)) st =
                    Inr st' \<and>
                  frame_prev st' = (frame_curr st)\<lparr>data0 := d\<rparr> \<and>
                  out_frames st' = out_frames st + 1 + min (int n) slack_f)"
proof
  from different_then_same [OF assms(3-6), of slack_f]
  obtain st' where run: "read_frames g dec_ctx vs slack_f (Picture d # map Picture sames) st = Inr st'"
    and f: "frames st' = frames st + 1 + int (length sames)"
    and o: "out_frames st' = out_frames st + 1 + max 0 (min (int (length sames)) slack_f)"
    and w: "written st' = written st @ (out_frames st, d) #
             map (\<lambda>i. (out_frames st + 1 + int i, d)) [0..<nat (min (int (length sames)) slack_f)]"
    by blast
  have m: "min (int (length sames)) slack_f = slack_f"
    using assms(2) by simp
  show "\<exists>st'. read_frames g dec_ctx vs slack_f (Picture d # map Picture sames) st = Inr st' \<and>
            out_frames st' - out_frames st = slack_f + 1 \<and>
            written st' = written st @ (out_frames st, d) #
              map (\<lambda>i. (out_frames st + 1 + int i, d)) [0..<nat slack_f] \<and>
            (frames st' - frames st) - (out_frames st' - out_frames st) =
              int (length sames) - slack_f"
    using run f o w assms(1) unfolding m by simp
next
  show "\<forall>n \<le> length sames.
            \<exists>st'. read_frames g dec_ctx vs slack_f (Picture d # map Picture (take n sames)) st =
                    Inr st' \<and>
                  frame_prev st' = (frame_curr st)\<lparr>data0 := d\<rparr> \<and>
                  out_frames st' = out_frames st + 1 + min (int n) slack_f"
  proof (intro allI impI)
    fix n assume n: "n \<le> length sames"
    have sub: "\<forall>rgb \<in> set (take n sames).
           fst (frames_differ (opts g) ((frame_curr st)\<lparr>data0 := d\<rparr>)
             ((frame_prev st)\<lparr>data0 := rgb\<rparr>) (width dec_ctx) (height dec_ctx)) = Inr False"
      using assms(6) by (meson in_set_takeD)
    from different_then_same [OF assms(3,4,5) sub, of slack_f]
    obtain st' where
      run: "read_frames g dec_ctx vs slack_f (Picture d # map Picture (take n sames)) st = Inr st'"
      and p: "frame_prev st' = (frame_curr st)\<lparr>data0 := d\<rparr>"
      and o: "out_frames st' = out_frames st + 1 + max 0 (min (int (length (take n sames))) slack_f)"
      by blast
    have "max 0 (min (int (length (take n sames))) slack_f) = min (int n) slack_f"
      using n assms(1) by simp
    with run p o show "\<exists>st'. read_frames g dec_ctx vs slack_f
          (Picture d # map Picture (take n sames)) st = Inr st' \<and>
        frame_prev st' = (frame_curr st)\<lparr>data0 := d\<rparr> \<and>
        out_frames st' = out_frames st + 1 + min (int n) slack_f"
      by simp
  qed
qed


theorem slack_run_witness:
  "(0::int) \<le> 1 \<and> 1 < int (length [frame_white, frame_white]) \<and>
   0 \<le> frames st_still \<and> num (avg_frame_rate vs_demo) \<noteq> 0 \<and>
   (frames st_still = 0 \<or>
    fst (frames_differ (opts g_demo) (frame_prev st_still)
          ((frame_curr st_still)\<lparr>data0 := frame_white\<rparr>)
          (width dec_demo) (height dec_demo)) = Inr True) \<and>
   fst (frames_differ (opts g_demo) ((frame_curr st_still)\<lparr>data0 := frame_white\<rparr>)
         ((frame_prev st_still)\<lparr>data0 := frame_white\<rparr>) (width dec_demo) (height dec_demo)) =
     Inr False \<and>
   (\<exists>st'. read_frames g_demo dec_demo vs_demo 1
            (Picture frame_white # map Picture [frame_white, frame_white]) st_still = Inr st' \<and>
          out_frames st' - out_frames st_still = 1 + 1 \<and>
          written st' = written st_still @ (out_frames st_still, frame_white) #
            map (\<lambda>i. (out_frames st_still + 1 + int i, frame_white)) [0..<nat 1] \<and>
          (frames st' - frames st_still) - (out_frames st' - out_frames st_still) =
            int (length [frame_white, frame_white]) - 1)"
proof -
  have h1: "(0::int) \<le> 1" by simp
  have h2: "1 < int (length [frame_white, frame_white])" by simp
  have h3: "0 \<le> frames st_still" by (simp add: st_still_def)
  have h4: "num (avg_frame_rate vs_demo) \<noteq> 0" by (simp add: vs_demo_def)
  have h5: "frames st_still = 0 \<or>
    fst (frames_differ (opts g_demo) (frame_prev st_still)
          ((frame_curr st_still)\<lparr>data0 := frame_white\<rparr>)
          (width dec_demo) (height dec_demo)) = Inr True"
    by code_simp
  have h6': "fst (frames_differ (opts g_demo) ((frame_curr st_still)\<lparr>data0 := frame_white\<rparr>)
         ((frame_prev st_still)\<lparr>data0 := frame_white\<rparr>) (width dec_demo) (height dec_demo)) =
     Inr False"
    by code_simp
  then have h6: "\<forall>rgb \<in> set [frame_white, frame_white].
      fst (frames_differ (opts g_demo) ((frame_curr st_still)\<lparr>data0 := frame_white\<rparr>)
            ((frame_prev st_still)\<lparr>data0 := rgb\<rparr>) (width dec_demo) (height dec_demo)) =
        Inr False"
    by simp
  from slack_run [OF h1 h2 h3 h4 h5 h6]
  have c: "\<exists>st'. read_frames g_demo dec_demo vs_demo 1
            (Picture frame_white # map Picture [frame_white, frame_white]) st_still = Inr st' \<and>
          out_frames st' - out_frames st_still = 1 + 1 \<and>
          written st' = written st_still @ (out_frames st_still, frame_white) #
            map (\<lambda>i. (out_frames st_still + 1 + int i, frame_white)) [0..<nat 1] \<and>
          (frames st' - frames st_still) - (out_frames st' - out_frames st_still) =
            int (length [frame_white, frame_white]) - 1"
    by (rule conjunct1)
  show ?thesis
    using h1 h2 h3 h4 h5 h6' c by (intro conjI)
qed

text \<open>
  The report of a skipped range: the lower end is \<open>frames - (skip - slack)\<close>, the upper
  end is \<open>frames\<close>, the number of the frame that ends the run, and that frame is written.
\<close>

lemma frame_different_reports:
  assumes "skip st > slack_f" and "num (avg_frame_rate vs) \<noteq> 0"
    and "log_rank (level g) \<le> log_rank LOG_INFO"
  shows "\<exists>st' h1 m1 s1 h2 m2 s2.
           frame_different g vs slack_f st = Inr st' \<and>
           printed st' = LOG (level g) LOG_DEBUG (MsgDifferent (frames st)) (printed st) @
             [MsgSkipFrames (frames st - (skip st - slack_f)) (frames st),
              MsgSkipTimes h1 m1 s1 h2 m2 s2] \<and>
           written st' = written st @ [(out_frames st, data0 (frame_curr st))] \<and>
           frames st' = frames st + 1"
proof -
  from assms(1) have "frames st - (skip st - slack_f) \<le> frames st" by simp
  from get_times_defined [OF this assms(2)]
  obtain s1 m1 h1 s2 m2 h2 where
    "get_times (frames st - (skip st - slack_f)) (frames st) (avg_frame_rate vs) =
       Inr (s1, m1, h1, s2, m2, h2)"
    by blast
  with assms(1,3) show ?thesis
    by (simp add: frame_different_def finish_frame_def Let_def LOG_def)
qed

text \<open>
  Claim C5, at an input where the code departs from it. With a slack of 0 frames, three
  black frames write frame 0 and drop frames 1 and 2 (\<open>st_still\<close>). The white frame 3
  then prints "Skip frames 1 to 3" and is itself written, under output index 1
  (\<open>st_resumed\<close>): the upper end of the printed range is \<^verbatim>\<open>frames\<close>, the frame that ends
  the run, and not the last dropped frame 2.
\<close>

theorem skip_report_names_written_frame:
  "read_frames g_demo dec_demo vs_demo 0
     (map Picture [frame_black, frame_black, frame_black]) st_demo = Inr st_still \<and>
   handle_frame g_demo dec_demo vs_demo 0 frame_white st_still = Inr st_resumed \<and>
   frames st_still = 3 \<and>
   written st_still = [(0, frame_black)] \<and>
   written st_resumed = [(0, frame_black), (1, frame_white)] \<and>
   MsgSkipFrames 1 3 \<in> set (printed st_resumed)"
  by code_simp

text \<open>
  Claim C4 fails: a run with a splash image over three black frames ends with
  the skip counter at 2, above the slack of 0, prints the totals and returns, and has
  printed no range of skipped frames.
\<close>

theorem no_report_for_open_skip_run:
  "excise_boring_bits g_splash wd_demo dec_demo vs_demo
     (map Picture [frame_black, frame_black, frame_black]) = Inr (True, st_splash_end) \<and>
   skip st_splash_end > 0 \<and>
   filter is_skip_report (printed st_splash_end) = []"
  by code_simp

lemma report_totals_no_skip_report:
  "report_totals g vs st = Inr st' \<Longrightarrow>
     filter is_skip_report (printed st') = filter is_skip_report (printed st)"
  by (auto simp add: report_totals_def say_def LOG_def Let_def split: sum.splits prod.splits)

subsection \<open>Splash injector and output sequencer\<close>

declare splash_loop.simps [simp del]

lemma map_upt_shift:
  "map (\<lambda>k. f (i + int k)) [0..<Suc n] = f i # map (\<lambda>k. f (i + 1 + int k)) [0..<n]"
proof -
  have "[0..<Suc n] = 0 # map Suc [0..<n]"
    by (simp only: map_Suc_upt upt_conv_Cons [of 0 "Suc n"] zero_less_Suc if_True)
  then show ?thesis
    by (simp only: list.map map_map o_def of_nat_Suc of_nat_0) (simp add: add.commute add.left_commute)
qed

lemma splash_loop_all_ok:
  "\<forall>i. link_ok wd i \<Longrightarrow> i \<le> lim \<Longrightarrow>
     splash_loop g wd lim i st =
       (lim, st\<lparr>linked := linked st @ map (\<lambda>k. i + int k) [0..<nat (lim - i)]\<rparr>)"
proof (induction g wd lim i st rule: splash_loop.induct)
  case (1 g wd lim i st)
  show ?case
  proof (cases "i < lim")
    case True
    have ok: "link_ok wd i" using "1.prems"(1) by simp
    define n where "n = nat (lim - (i + 1))"
    have n: "nat (lim - i) = Suc n"
      using True by (simp add: n_def)
    have "splash_loop g wd lim (i + 1) (st\<lparr>linked := linked st @ [i]\<rparr>) =
            (lim, st\<lparr>linked := linked st @ [i] @ map (\<lambda>k. i + 1 + int k) [0..<n]\<rparr>)"
      using "1.IH" [OF True _ "1.prems"(1)] ok True by (simp add: n_def)
    moreover have "splash_loop g wd lim i st =
                     splash_loop g wd lim (i + 1) (st\<lparr>linked := linked st @ [i]\<rparr>)"
      using True ok by (subst splash_loop.simps) simp
    ultimately show ?thesis
      unfolding n map_upt_shift [of "\<lambda>x. x" i n] by simp
  next
    case False
    with "1.prems"(2) have "i = lim" by simp
    then show ?thesis
      by (subst splash_loop.simps) simp
  qed
qed

lemma dump_splash_all_ok:
  assumes "\<forall>i. link_ok wd i"
    and "0 \<le> splash (opts g)" and "0 \<le> num fps" and "0 < den fps"
    and "splash (opts g) * num fps < 2 ^ 31" and "100 * den fps < 2 ^ 31"
  shows "dump_splash g wd fps st =
           Inr (splash (opts g) * num fps div (100 * den fps),
                say g LOG_INFO (MsgSplashFrames (splash (opts g) * num fps div (100 * den fps)))
                  (st\<lparr>linked := linked st @
                       map int [0..<nat (splash (opts g) * num fps div (100 * den fps))]\<rparr>))"
proof -
  define lim where "lim = splash (opts g) * num fps div (100 * den fps)"
  have a: "0 \<le> splash (opts g) * num fps" using assms(2,3) by simp
  have b: "0 < 100 * den fps" using assms(4) by simp
  have wa: "wrap_int (splash (opts g) * num fps) = splash (opts g) * num fps"
    using a assms(5) by (simp add: wrap_int_id)
  have wb: "wrap_int (SECOND_IN_CS * den fps) = 100 * den fps"
    using b assms(6) by (simp add: wrap_int_id SECOND_IN_CS_def)
  have d: "c_div (wrap_int (splash (opts g) * num fps)) (wrap_int (SECOND_IN_CS * den fps)) = Inr lim"
    unfolding wa wb using b trunc_div_nonneg [OF a b] by (simp add: c_div_def lim_def)
  have "0 \<le> lim"
    using a b unfolding lim_def by (simp add: pos_imp_zdiv_nonneg_iff)
  from splash_loop_all_ok [OF assms(1) this, of g st]
  have "splash_loop g wd lim 0 st = (lim, st\<lparr>linked := linked st @ map int [0..<nat lim]\<rparr>)"
    by simp
  then show ?thesis
    unfolding lim_def [symmetric] by (simp add: dump_splash_def d)
qed


lemma sequenced_same:
  "out_frames st' = out_frames st \<Longrightarrow> written st' = written st \<Longrightarrow>
     sequenced n st \<Longrightarrow> sequenced n st'"
  by (simp add: sequenced_def)

lemma sequenced_step:
  "out_frames st' = out_frames st + 1 \<Longrightarrow> written st' = written st @ [(out_frames st, px)] \<Longrightarrow>
     sequenced n st \<Longrightarrow> sequenced n st'"
  by (simp add: sequenced_def)

lemma carries_on_refl: "carries_on n st st"
  by (simp add: carries_on_def)

lemma carries_on_trans: "carries_on n st st1 \<Longrightarrow> carries_on n st1 st2 \<Longrightarrow> carries_on n st st2"
  by (auto simp add: carries_on_def)

lemma carries_on_same:
  "linked st' = linked st \<Longrightarrow> out_frames st' = out_frames st \<Longrightarrow> written st' = written st \<Longrightarrow>
     carries_on n st st'"
  by (simp add: carries_on_def sequenced_same)

lemma carries_on_step:
  "linked st' = linked st \<Longrightarrow> out_frames st' = out_frames st + 1 \<Longrightarrow>
     written st' = written st @ [(out_frames st, px)] \<Longrightarrow> carries_on n st st'"
  by (simp add: carries_on_def sequenced_step)

lemma frame_different_carries_on:
  "carries_on n st (reached (frame_different g vs slack_f st))"
proof (cases "skip st > slack_f")
  case False
  then show ?thesis
    by (intro carries_on_step [where px = "data0 (frame_curr st)"])
      (simp_all add: frame_different_def finish_frame_def reached_def Let_def)
next
  case True
  show ?thesis
  proof (cases "get_times (frames st - (skip st - slack_f)) (frames st) (avg_frame_rate vs)")
    case (Inl e)
    with True show ?thesis
      by (intro carries_on_same)
        (simp_all add: frame_different_def reached_def Let_def)
  next
    case (Inr t)
    with True show ?thesis
      by (cases t, intro carries_on_step [where px = "data0 (frame_curr st)"])
        (simp_all add: frame_different_def finish_frame_def reached_def Let_def)
  qed
qed

lemma frame_same_carries_on:
  "carries_on n st (frame_same g slack_f st)"
proof (cases "skip st + 1 > slack_f")
  case True
  then show ?thesis
    by (intro carries_on_same) (simp_all add: frame_same_def finish_frame_def Let_def)
next
  case False
  then show ?thesis
    by (intro carries_on_step [where px = "data0 (frame_prev st)"])
      (simp_all add: frame_same_def finish_frame_def Let_def)
qed

lemma handle_frame_carries_on:
  "carries_on n st (reached (handle_frame g dec_ctx vs slack_f rgb st))"
proof -
  define s0 where "s0 = st\<lparr>frame_curr := (frame_curr st)\<lparr>data0 := rgb\<rparr>\<rparr>"
  define s1 where "s1 = s0\<lparr>differ_calls := differ_calls s0 + 1\<rparr>"
  have a: "carries_on n st s0" and b: "carries_on n s0 s1"
    by (simp_all add: s0_def s1_def carries_on_same)
  show ?thesis
  proof (cases "frames st = 0")
    case True
    then have "reached (handle_frame g dec_ctx vs slack_f rgb st) =
                 reached (frame_different g vs slack_f s0)"
      by (simp add: handle_frame_def s0_def Let_def)
    with a frame_different_carries_on [of n s0 g vs slack_f] show ?thesis
      by (simp add: carries_on_trans)
  next
    case False
    have c: "carries_on n st s1"
      using a b by (rule carries_on_trans)
    consider (err) e where "fst (frames_differ (opts g) (frame_prev s1) (frame_curr s1)
                       (width dec_ctx) (height dec_ctx)) = Inl e"
      | (diff) "fst (frames_differ (opts g) (frame_prev s1) (frame_curr s1)
                       (width dec_ctx) (height dec_ctx)) = Inr True"
      | (same) "fst (frames_differ (opts g) (frame_prev s1) (frame_curr s1)
                       (width dec_ctx) (height dec_ctx)) = Inr False"
      by (cases "fst (frames_differ (opts g) (frame_prev s1) (frame_curr s1)
                       (width dec_ctx) (height dec_ctx))") auto
    then show ?thesis
    proof cases
      case err
      with False have "reached (handle_frame g dec_ctx vs slack_f rgb st) = s1"
        by (simp add: handle_frame_def s0_def s1_def Let_def reached_def)
      with c show ?thesis by simp
    next
      case diff
      with False have "reached (handle_frame g dec_ctx vs slack_f rgb st) =
                 reached (frame_different g vs slack_f s1)"
        by (simp add: handle_frame_def s0_def s1_def Let_def)
      with c frame_different_carries_on [of n s1 g vs slack_f] show ?thesis
        by (simp add: carries_on_trans)
    next
      case same
      with False have "reached (handle_frame g dec_ctx vs slack_f rgb st) =
                 frame_same g slack_f s1"
        by (simp add: handle_frame_def s0_def s1_def Let_def reached_def)
      with c frame_same_carries_on [of n s1 g slack_f] show ?thesis
        by (simp add: carries_on_trans)
    qed
  qed
qed

lemma read_frames_carries_on:
  "carries_on n st (reached (read_frames g dec_ctx vs slack_f pkts st))"
proof (induction g dec_ctx vs slack_f pkts st rule: read_frames.induct)
  case (1 g dec_ctx vs slack_f st)
  show ?case by (simp add: reached_def carries_on_refl)
next
  case (2 g dec_ctx vs slack_f pkts st)
  have "carries_on n st (say g LOG_DEBUG MsgNotVideo st)"
    by (simp add: carries_on_same)
  with "2.IH" show ?case
    by (simp add: carries_on_trans)
next
  case (3 g dec_ctx vs slack_f pkts st)
  show ?case by (simp add: reached_def carries_on_same)
next
  case (4 g dec_ctx vs slack_f pkts st)
  then show ?case by simp
next
  case (5 g dec_ctx vs slack_f rgb pkts st)
  show ?case
  proof (cases "handle_frame g dec_ctx vs slack_f rgb st")
    case (Inl e)
    then have "reached (read_frames g dec_ctx vs slack_f (Picture rgb # pkts) st) =
               reached (handle_frame g dec_ctx vs slack_f rgb st)"
      by simp
    then show ?thesis
      by (simp add: handle_frame_carries_on)
  next
    case (Inr st1)
    then have "carries_on n st st1"
      using handle_frame_carries_on [of n st g dec_ctx vs slack_f rgb] by (simp add: reached_def)
    with "5.IH" [OF Inr] Inr show ?thesis
      by (simp add: carries_on_trans)
  qed
qed


lemma report_totals_carries_on:
  "carries_on n st (reached (report_totals g vs st))"
  by (intro carries_on_same)
    (auto simp add: report_totals_def reached_def Let_def split: sum.splits prod.splits)

text \<open>Packets before the first frame leave everything but the text printed as it is.\<close>

lemma idle_packets:
  "set idle \<subseteq> {OtherStream, NoPicture} \<Longrightarrow>
     \<exists>st1. read_frames g dec_ctx vs slack_f (idle @ pkts) st =
             read_frames g dec_ctx vs slack_f pkts st1 \<and>
           frames st1 = frames st \<and> skip st1 = skip st \<and>
           out_frames st1 = out_frames st \<and> written st1 = written st"
proof (induction idle arbitrary: st)
  case Nil
  show ?case by (intro exI [of _ st]) simp
next
  case (Cons p idle)
  then have p: "p = OtherStream \<or> p = NoPicture" and rest: "set idle \<subseteq> {OtherStream, NoPicture}"
    by simp_all
  from p show ?case
  proof
    assume "p = OtherStream"
    with Cons.IH [OF rest, of "say g LOG_DEBUG MsgNotVideo st"] show ?thesis
      by simp
  next
    assume "p = NoPicture"
    with Cons.IH [OF rest, of st] show ?thesis
      by simp
  qed
qed

lemma handle_first_frame:
  assumes "frames st = 0" and "skip st \<le> slack_f \<or> num (avg_frame_rate vs) \<noteq> 0"
  shows "\<exists>st1. handle_frame g dec_ctx vs slack_f rgb st = Inr st1 \<and>
           written st1 = written st @ [(out_frames st, rgb)]"
proof (cases "num (avg_frame_rate vs) \<noteq> 0")
  case True
  from handle_frame_different [OF disjI1 [OF assms(1)] True, where slack_f = slack_f and rgb = rgb]
  show ?thesis by blast
next
  case False
  with assms have "skip st \<le> slack_f" by simp
  with assms(1) show ?thesis
    by (simp add: handle_frame_def frame_different_def finish_frame_def Let_def)
qed

lemma first_frame_written:
  assumes "frames st = 0" and "skip st \<le> slack_f \<or> num (avg_frame_rate vs) \<noteq> 0"
    and "set idle \<subseteq> {OtherStream, NoPicture}"
  shows "\<exists>ws. written (reached (read_frames g dec_ctx vs slack_f (idle @ Picture rgb # rest) st)) =
               written st @ (out_frames st, rgb) # ws"
proof -
  from idle_packets [OF assms(3), of g dec_ctx vs slack_f "Picture rgb # rest" st]
  obtain st1 where run: "read_frames g dec_ctx vs slack_f (idle @ Picture rgb # rest) st =
             read_frames g dec_ctx vs slack_f (Picture rgb # rest) st1"
    and f: "frames st1 = frames st" and s: "skip st1 = skip st"
    and o: "out_frames st1 = out_frames st" and w: "written st1 = written st"
    by blast
  have "frames st1 = 0" "skip st1 \<le> slack_f \<or> num (avg_frame_rate vs) \<noteq> 0"
    using assms(1,2) f s by simp_all
  from handle_first_frame [OF this, where rgb = rgb]
  obtain st2 where h: "handle_frame g dec_ctx vs slack_f rgb st1 = Inr st2"
    and w2: "written st2 = written st1 @ [(out_frames st1, rgb)]"
    by blast
  have "carries_on 0 st2 (reached (read_frames g dec_ctx vs slack_f rest st2))"
    by (rule read_frames_carries_on)
  then obtain ws where "written (reached (read_frames g dec_ctx vs slack_f rest st2)) =
                          written st2 @ ws"
    by (auto simp add: carries_on_def prefix_def)
  then show ?thesis
    using run h w2 w o by simp
qed


text \<open>
  Claim C7 fails where \<^verbatim>\<open>options.splash * fps->num\<close> leaves the range of \<^verbatim>\<open>int\<close>. For a
  splash time of 40000 cs at 60000/1001 frames per second the claim has 23976 slots;
  the product 2400000000 is kept as \<open>-1894967296\<close>, the limit of the loop is \<open>-18930\<close>, no
  slot is made and the first frame is written under index 0.
\<close>

theorem splash_product_overflow:
  "splash (opts g_long) * num (avg_frame_rate vs_fast) div (100 * den (avg_frame_rate vs_fast)) =
     23976 \<and>
   wrap_int (splash (opts g_long) * num (avg_frame_rate vs_fast)) = - 1894967296 \<and>
   linked (outcome_state (excise_boring_bits g_long wd_demo dec_demo vs_fast pkts_demo)) = [] \<and>
   written (outcome_state (excise_boring_bits g_long wd_demo dec_demo vs_fast pkts_demo)) =
     [(0, frame_black)]"
  by code_simp

text \<open>
  Claim C7, amended. With a splash image configured, a splash time of \<open>D\<close> cs that is not
  negative, a frame rate \<open>num/den\<close> with \<open>num\<close> not negative and \<open>den\<close> positive, the
  products \<open>D * num\<close> and \<open>100 * den\<close> inside the range of \<^verbatim>\<open>int\<close>, the three frame
  allocations succeeding and every \<^verbatim>\<open>link\<close> succeeding, a run, however it ends, has made
  exactly the splash slots \<open>0, ..., n - 1\<close> for \<open>n = D * num div (100 * den)\<close>; the frames
  written by the main loop carry the indices \<open>n, n + 1, ...\<close>; and the first frame of the
  input is written under index \<open>n\<close>.
\<close>

theorem splash_slots_then_frames:
  assumes "alloc_frame_ok wd" and "alloc_curr_ok wd" and "alloc_prev_ok wd"
    and "splash_path (opts g) \<noteq> None"
    and "0 \<le> splash (opts g)"
    and "0 \<le> num (avg_frame_rate vs)" and "0 < den (avg_frame_rate vs)"
    and "\<forall>i. link_ok wd i"
    and "splash (opts g) * num (avg_frame_rate vs) < 2 ^ 31"
    and "100 * den (avg_frame_rate vs) < 2 ^ 31"
  shows "let n = splash (opts g) * num (avg_frame_rate vs) div (100 * den (avg_frame_rate vs));
             st = outcome_state (excise_boring_bits g wd dec_ctx vs pkts)
         in linked st = map int [0..<nat n] \<and>
            map fst (written st) = map (\<lambda>k. n + int k) [0..<length (written st)] \<and>
            (\<forall>idle rgb rest.
               pkts = idle @ Picture rgb # rest \<and> set idle \<subseteq> {OtherStream, NoPicture} \<longrightarrow>
               (\<exists>ws. written st = (n, rgb) # ws))"
proof -
  define fps where "fps = avg_frame_rate vs"
  define n where "n = splash (opts g) * num fps div (100 * den fps)"
  define slack_f where
    "slack_f = trunc_div (wrap_int (slack (opts g) * num fps)) (wrap_int (SECOND_IN_CS * den fps))"
  define st0 where "st0 = \<lparr>frames = 0, out_frames = 0, skip = 0,
                frame_prev = rgb_prev wd, frame_curr = rgb_curr wd,
                printed = [], linked = [], written = [], differ_calls = 0\<rparr>"
  define st1 where "st1 = (say g LOG_INFO (MsgSplashFrames n)
                  (st0\<lparr>linked := linked st0 @ map int [0..<nat n]\<rparr>))\<lparr>out_frames := n\<rparr>"
  define r where "r = read_frames g dec_ctx vs slack_f pkts st1"
  have den: "wrap_int (SECOND_IN_CS * den fps) \<noteq> 0"
    using assms(7,10) by (simp add: wrap_int_id SECOND_IN_CS_def fps_def)
  have sl: "c_div (wrap_int (slack (opts g) * num fps)) (wrap_int (SECOND_IN_CS * den fps)) =
              Inr slack_f"
    using den by (simp add: c_div_def slack_f_def)
  have sp: "dump_splash g wd fps st0 =
              Inr (n, say g LOG_INFO (MsgSplashFrames n)
                        (st0\<lparr>linked := linked st0 @ map int [0..<nat n]\<rparr>))"
    unfolding n_def using assms(5-10) by (simp add: dump_splash_all_ok fps_def)
  have run: "outcome_state (excise_boring_bits g wd dec_ctx vs pkts) =
               (case r of Inl (e, st) \<Rightarrow> st | Inr st \<Rightarrow> reached (report_totals g vs st))"
    using assms(1-4) sl sp
    unfolding excise_boring_bits_def fps_def [symmetric] st0_def [symmetric] Let_def
    by (simp add: outcome_state_def reached_def r_def st1_def split: sum.splits prod.splits)
  have c1: "carries_on n st1 (reached r)"
    unfolding r_def by (rule read_frames_carries_on)
  have c2: "carries_on n st1 (outcome_state (excise_boring_bits g wd dec_ctx vs pkts))"
  proof (cases r)
    case (Inl a)
    with c1 run show ?thesis
      by (cases a) (simp add: reached_def)
  next
    case (Inr st)
    with c1 have "carries_on n st1 st"
      by (simp add: reached_def)
    moreover have "carries_on n st (reached (report_totals g vs st))"
      by (rule report_totals_carries_on)
    ultimately show ?thesis
      using run Inr by (simp add: carries_on_trans)
  qed
  have init: "linked st1 = map int [0..<nat n]" "written st1 = []" "sequenced n st1"
    "frames st1 = 0" "skip st1 = 0" "out_frames st1 = n"
    by (simp_all add: st1_def st0_def sequenced_def)
  have links: "linked (outcome_state (excise_boring_bits g wd dec_ctx vs pkts)) = map int [0..<nat n]"
    using c2 init by (simp add: carries_on_def)
  have seq: "sequenced n (outcome_state (excise_boring_bits g wd dec_ctx vs pkts))"
    using c2 init by (simp add: carries_on_def)
  have first: "\<exists>ws. written (outcome_state (excise_boring_bits g wd dec_ctx vs pkts)) = (n, rgb) # ws"
    if "pkts = idle @ Picture rgb # rest" and "set idle \<subseteq> {OtherStream, NoPicture}"
    for idle rgb rest
  proof -
    have "skip st1 \<le> slack_f \<or> num (avg_frame_rate vs) \<noteq> 0"
    proof (cases "num (avg_frame_rate vs) = 0")
      case True
      then have "slack_f = 0"
        by (simp add: slack_f_def fps_def trunc_div_def wrap_int_def)
      with init show ?thesis by simp
    next
      case False
      then show ?thesis by simp
    qed
    then have "\<exists>ws. written (reached (read_frames g dec_ctx vs slack_f
                   (idle @ Picture rgb # rest) st1)) = written st1 @ (out_frames st1, rgb) # ws"
      by (rule first_frame_written [OF init(4) _ that(2)])
    then have "\<exists>ws. written (reached r) = (n, rgb) # ws"
      by (simp add: r_def that(1) init(2,6))
    then obtain ws where "written (reached r) = (n, rgb) # ws"
      by blast
    moreover have "prefix (written (reached r))
                     (written (outcome_state (excise_boring_bits g wd dec_ctx vs pkts)))"
    proof (cases r)
      case (Inl a)
      with run show ?thesis by (cases a) (simp add: reached_def)
    next
      case (Inr st)
      with run report_totals_carries_on [of n st g vs] show ?thesis
        by (simp add: reached_def carries_on_def)
    qed
    ultimately show ?thesis
      by (auto simp add: prefix_def)
  qed
  show ?thesis
    unfolding Let_def fps_def [symmetric] n_def [symmetric]
    using links seq first by (auto simp add: sequenced_def)
qed


theorem splash_slots_then_frames_witness:
  "alloc_frame_ok wd_demo \<and> alloc_curr_ok wd_demo \<and> alloc_prev_ok wd_demo \<and>
   splash_path (opts g_splash) \<noteq> None \<and> 0 \<le> splash (opts g_splash) \<and>
   0 \<le> num (avg_frame_rate vs_demo) \<and> 0 < den (avg_frame_rate vs_demo) \<and>
   (\<forall>i. link_ok wd_demo i) \<and>
   splash (opts g_splash) * num (avg_frame_rate vs_demo) < 2 ^ 31 \<and>
   100 * den (avg_frame_rate vs_demo) < 2 ^ 31 \<and>
   linked (outcome_state (excise_boring_bits g_splash wd_demo dec_demo vs_demo pkts_demo)) =
     [0, 1, 2] \<and>
   (\<exists>ws. written (outcome_state (excise_boring_bits g_splash wd_demo dec_demo vs_demo pkts_demo)) =
      (3, frame_black) # ws)"
proof -
  have h1: "alloc_frame_ok wd_demo" and h2: "alloc_curr_ok wd_demo" and h3: "alloc_prev_ok wd_demo"
    and h8: "\<forall>i. link_ok wd_demo i"
    by (simp_all add: wd_demo_def)
  have h4: "splash_path (opts g_splash) \<noteq> None" and h5: "0 \<le> splash (opts g_splash)"
    by (simp_all add: g_splash_def)
  have h6: "0 \<le> num (avg_frame_rate vs_demo)" and h7: "0 < den (avg_frame_rate vs_demo)"
    by (simp_all add: vs_demo_def)
  have h9: "splash (opts g_splash) * num (avg_frame_rate vs_demo) < 2 ^ 31"
    and h10: "100 * den (avg_frame_rate vs_demo) < 2 ^ 31"
    by (simp_all add: g_splash_def vs_demo_def)
  have n: "splash (opts g_splash) * num (avg_frame_rate vs_demo) div
             (100 * den (avg_frame_rate vs_demo)) = 3"
    by (simp add: g_splash_def vs_demo_def)
  have u: "map int [0..<nat 3] = [0, 1, 2]"
    by code_simp
  have p: "pkts_demo = [OtherStream] @ Picture frame_black # [Picture frame_black] \<and>
           set [OtherStream] \<subseteq> {OtherStream, NoPicture}"
    by (simp add: pkts_demo_def)
  note c = splash_slots_then_frames [OF h1 h2 h3 h4 h5 h6 h7 h8 h9 h10, of dec_demo pkts_demo,
      unfolded Let_def n u]
  from c have l: "linked (outcome_state
      (excise_boring_bits g_splash wd_demo dec_demo vs_demo pkts_demo)) = [0, 1, 2]"
    by (rule conjunct1)
  from c p have w: "\<exists>ws. written (outcome_state
      (excise_boring_bits g_splash wd_demo dec_demo vs_demo pkts_demo)) = (3, frame_black) # ws"
    by blast
  show ?thesis
    using h1 h2 h3 h4 h5 h6 h7 h8 h9 h10 l w by (intro conjI)
qed


subsection \<open>The whole run\<close>

text \<open>A run returns only when at least as many frames were written as were read.\<close>

lemma returns_only_without_loss:
  assumes "excise_boring_bits g wd dec_ctx vs pkts = Inr (True, st)"
  shows "frames st \<le> out_frames st"
proof -
  from assms obtain st1 where t: "report_totals g vs st1 = Inr st"
    by (auto simp add: excise_boring_bits_def Let_def say_def
        split: sum.splits if_splits prod.splits)
  then obtain tm where g: "get_times (frames st1) (out_frames st1) (avg_frame_rate vs) = Inr tm"
    by (cases "get_times (frames st1) (out_frames st1) (avg_frame_rate vs)")
      (simp_all add: report_totals_def)
  then have "frames st1 \<le> out_frames st1"
    by (simp add: get_times_def split: if_splits)
  moreover from t g have "frames st = frames st1" "out_frames st = out_frames st1"
    by (cases tm, auto simp add: report_totals_def Let_def)+
  ultimately show ?thesis by simp
qed

text \<open>A run that gets to its loop is the loop, then the totals.\<close>

lemma report_totals_get_times:
  "report_totals g vs st =
     (case get_times (frames st) (out_frames st) (avg_frame_rate vs) of
        Inl e \<Rightarrow> Inl (e, st)
      | Inr (s1, m1, h1, s2, m2, h2) \<Rightarrow>
          Inr (st\<lparr>printed := LOG (level g) LOG_RESULT (MsgTimes h1 m1 s1 h2 m2 s2)
                     (LOG (level g) LOG_RESULT (MsgFrames (frames st) (out_frames st))
                       (printed st))\<rparr>))"
  by (simp add: report_totals_def say_def Let_def split: sum.splits prod.splits)

lemma excise_boring_bits_loop:
  assumes "loop_entry g wd vs = Some (slack_f, st1)"
  shows "excise_boring_bits g wd dec_ctx vs pkts =
           (case read_frames g dec_ctx vs slack_f pkts st1 of
              Inl x \<Rightarrow> Inl x
            | Inr st \<Rightarrow>
                (case report_totals g vs st of
                   Inl x \<Rightarrow> Inl x
                 | Inr st \<Rightarrow> Inr (True, st)))"
proof -
  define st0 where "st0 = \<lparr>frames = 0, out_frames = 0, skip = 0,
                frame_prev = rgb_prev wd, frame_curr = rgb_curr wd,
                printed = [], linked = [], written = [], differ_calls = 0\<rparr>"
  define sp where "sp = (if splash_path (opts g) \<noteq> None
                      then dump_splash g wd (avg_frame_rate vs) st0
                      else Inr (0, st0))"
  note entry = assms [unfolded loop_entry_def Let_def, folded st0_def, folded sp_def]
  from entry have sl: "c_div (wrap_int (slack (opts g) * num (avg_frame_rate vs)))
                    (wrap_int (SECOND_IN_CS * den (avg_frame_rate vs))) = Inr slack_f"
    by (simp split: sum.splits if_splits prod.splits)
  from entry sl have al: "alloc_frame_ok wd" "alloc_curr_ok wd" "alloc_prev_ok wd"
    by (simp_all split: if_splits)
  from entry sl al obtain n st where sp: "sp = Inr (n, st)" and st1: "st1 = st\<lparr>out_frames := n\<rparr>"
    by (cases sp) auto
  show ?thesis
    unfolding excise_boring_bits_def Let_def
    unfolding st0_def [symmetric] sp_def [symmetric]
    by (simp add: sl al sp st1)
qed

text \<open>The loop over packets of which none fails to decode, then over more packets.\<close>

lemma read_frames_append:
  "DecodeError \<notin> set pkts \<Longrightarrow>
     read_frames g dec_ctx vs slack_f (pkts @ rest) st =
       (case read_frames g dec_ctx vs slack_f pkts st of
          Inl x \<Rightarrow> Inl x
        | Inr st' \<Rightarrow> read_frames g dec_ctx vs slack_f rest st')"
proof (induction g dec_ctx vs slack_f pkts st rule: read_frames.induct)
  case (1 g dec_ctx vs slack_f st)
  show ?case by simp
next
  case (2 g dec_ctx vs slack_f pkts st)
  then show ?case by simp
next
  case (3 g dec_ctx vs slack_f pkts st)
  then show ?case by simp
next
  case (4 g dec_ctx vs slack_f pkts st)
  then show ?case by simp
next
  case (5 g dec_ctx vs slack_f rgb pkts st)
  then show ?case
    by (cases "handle_frame g dec_ctx vs slack_f rgb st") simp_all
qed


text \<open>
  Claim C4, amended. When the input ends after a frame that was classified same and
  dropped, so that the skip counter stands above the slack and a skip run is still
  open, no range of skipped frames is reported for it: from the state \<open>st\<close> before that
  frame, the loop prints at most the debug line of the frame, writes nothing and leaves
  the counter above the slack (\<open>st'\<close>); then the program calls
  \<^verbatim>\<open>get_times(frames, out_frames, ...)\<close> and stops there if the call fails, and otherwise
  prints the two messages of the totals and returns.
\<close>

theorem open_skip_run_not_reported:
  assumes "loop_entry g wd vs = Some (slack_f, st1)"
    and "DecodeError \<notin> set pkts"
    and "read_frames g dec_ctx vs slack_f pkts st1 = Inr st"
    and "frames st \<noteq> 0"
    and "fst (frames_differ (opts g) (frame_prev st) ((frame_curr st)\<lparr>data0 := rgb\<rparr>)
           (width dec_ctx) (height dec_ctx)) = Inr False"
    and "slack_f < skip st + 1"
  shows "\<exists>st'. read_frames g dec_ctx vs slack_f (pkts @ [Picture rgb]) st1 = Inr st' \<and>
           skip st' = skip st + 1 \<and> slack_f < skip st' \<and>
           frames st' = frames st + 1 \<and> out_frames st' = out_frames st \<and>
           written st' = written st \<and>
           printed st' = LOG (level g) LOG_DEBUG (MsgSame (frames st)) (printed st) \<and>
           excise_boring_bits g wd dec_ctx vs (pkts @ [Picture rgb]) =
             (case get_times (frames st') (out_frames st') (avg_frame_rate vs) of
                Inl e \<Rightarrow> Inl (e, st')
              | Inr (s1, m1, h1, s2, m2, h2) \<Rightarrow>
                  Inr (True,
                       st'\<lparr>printed := LOG (level g) LOG_RESULT (MsgTimes h1 m1 s1 h2 m2 s2)
                              (LOG (level g) LOG_RESULT (MsgFrames (frames st') (out_frames st'))
                                (printed st'))\<rparr>))"
proof -
  define st' where "st' = frame_same g slack_f
      (st\<lparr>frame_curr := (frame_curr st)\<lparr>data0 := rgb\<rparr>, differ_calls := differ_calls st + 1\<rparr>)"
  have last: "handle_frame g dec_ctx vs slack_f rgb st = Inr st'"
    using assms(4,5) by (simp add: handle_frame_def st'_def Let_def)
  have loop: "read_frames g dec_ctx vs slack_f (pkts @ [Picture rgb]) st1 = Inr st'"
    using read_frames_append [OF assms(2), of g dec_ctx vs slack_f "[Picture rgb]" st1]
      assms(3) last
    by simp
  have fields: "skip st' = skip st + 1" "frames st' = frames st + 1"
    "out_frames st' = out_frames st" "written st' = written st"
    "printed st' = LOG (level g) LOG_DEBUG (MsgSame (frames st)) (printed st)"
    using assms(6) by (simp_all add: st'_def frame_same_def finish_frame_def Let_def)
  have whole: "excise_boring_bits g wd dec_ctx vs (pkts @ [Picture rgb]) =
             (case get_times (frames st') (out_frames st') (avg_frame_rate vs) of
                Inl e \<Rightarrow> Inl (e, st')
              | Inr (s1, m1, h1, s2, m2, h2) \<Rightarrow>
                  Inr (True,
                       st'\<lparr>printed := LOG (level g) LOG_RESULT (MsgTimes h1 m1 s1 h2 m2 s2)
                              (LOG (level g) LOG_RESULT (MsgFrames (frames st') (out_frames st'))
                                (printed st'))\<rparr>))"
    unfolding excise_boring_bits_loop [OF assms(1)] loop report_totals_get_times
    by (simp split: sum.splits prod.splits)
  show ?thesis
    using loop fields assms(6) whole by (intro exI [of _ st']) simp
qed

theorem open_skip_run_not_reported_witness:
  "loop_entry g_splash wd_demo vs_demo = Some (0, st_splash_start) \<and>
   DecodeError \<notin> set [Picture frame_black] \<and>
   read_frames g_splash dec_demo vs_demo 0 [Picture frame_black] st_splash_start =
     Inr st_splash_one \<and>
   frames st_splash_one \<noteq> 0 \<and>
   fst (frames_differ (opts g_splash) (frame_prev st_splash_one)
         ((frame_curr st_splash_one)\<lparr>data0 := frame_black\<rparr>)
         (width dec_demo) (height dec_demo)) = Inr False \<and>
   0 < skip st_splash_one + 1 \<and>
   (\<exists>st'. read_frames g_splash dec_demo vs_demo 0
            ([Picture frame_black] @ [Picture frame_black]) st_splash_start = Inr st' \<and>
          skip st' = skip st_splash_one + 1 \<and> 0 < skip st' \<and>
          frames st' = frames st_splash_one + 1 \<and> out_frames st' = out_frames st_splash_one \<and>
          written st' = written st_splash_one \<and>
          printed st' = LOG (level g_splash) LOG_DEBUG (MsgSame (frames st_splash_one))
                          (printed st_splash_one) \<and>
          excise_boring_bits g_splash wd_demo dec_demo vs_demo
              ([Picture frame_black] @ [Picture frame_black]) =
            (case get_times (frames st') (out_frames st') (avg_frame_rate vs_demo) of
               Inl e \<Rightarrow> Inl (e, st')
             | Inr (s1, m1, h1, s2, m2, h2) \<Rightarrow>
                 Inr (True,
                      st'\<lparr>printed := LOG (level g_splash) LOG_RESULT (MsgTimes h1 m1 s1 h2 m2 s2)
                             (LOG (level g_splash) LOG_RESULT
                                (MsgFrames (frames st') (out_frames st')) (printed st'))\<rparr>)))"
proof -
  have h1: "loop_entry g_splash wd_demo vs_demo = Some (0, st_splash_start)"
    by code_simp
  have h2: "DecodeError \<notin> set [Picture frame_black]"
    by simp
  have h3: "read_frames g_splash dec_demo vs_demo 0 [Picture frame_black] st_splash_start =
     Inr st_splash_one"
    by code_simp
  have h4: "frames st_splash_one \<noteq> 0"
    by (simp add: st_splash_one_def)
  have h5: "fst (frames_differ (opts g_splash) (frame_prev st_splash_one)
         ((frame_curr st_splash_one)\<lparr>data0 := frame_black\<rparr>)
         (width dec_demo) (height dec_demo)) = Inr False"
    by code_simp
  have h6: "0 < skip st_splash_one + 1"
    by (simp add: st_splash_one_def)
  note c = open_skip_run_not_reported [OF h1 h2 h3 h4 h5 h6]
  show ?thesis
    using h1 h2 h3 h4 h5 h6 c by (intro conjI)
qed

text \<open>The whole output of that run: the totals follow the line of the dropped frame.\<close>

end
